theory Spec2Isabelle
  imports Complex_Main
begin

section \<open>Data model (types.ts)\<close>

text \<open>
  The enum \<open>Player\<close> has the three members of the source; \<open>Player.None\<close> is written
  \<open>PlayerNone\<close>. A \<open>Position\<close> holds two JavaScript numbers, used as integers throughout
  (a step of a direction can leave the grid on either side, so they are \<open>int\<close>). The
  fields \<open>from\<close> and \<open>to\<close> of a \<open>Move\<close> are written \<open>moveFrom\<close> and \<open>moveTo\<close>; the
  optional field \<open>capturedPiece\<close> is an \<open>option\<close>.
\<close>

datatype Player = PlayerNone | Red | Black

datatype PieceType = Man | King

record Piece =
  player :: Player
  type :: PieceType

record Position =
  row :: int
  col :: int

record Move =
  moveFrom :: Position
  moveTo :: Position
  isCapture :: bool
  capturedPiece :: "Position option"

text \<open>
  \<open>BoardState = (Piece | null)[][]\<close>, an 8x8 grid by the comment of its declaration:
  a list of rows, each a list of squares, \<open>None\<close> for \<open>null\<close>.
\<close>

type_synonym BoardState = "Piece option list list"

datatype Difficulty = Easy | Medium | Hard

section \<open>The grid\<close>

definition BOARD_SIZE :: int where
  "BOARD_SIZE = 8"

definition isValidPos :: "int \<Rightarrow> int \<Rightarrow> bool" where
  "isValidPos r c = (r \<ge> 0 \<and> r < BOARD_SIZE \<and> c \<ge> 0 \<and> c < BOARD_SIZE)"

definition isSamePos :: "Position \<Rightarrow> Position \<Rightarrow> bool" where
  "isSamePos p1 p2 = (row p1 = row p2 \<and> col p1 = col p2)"

text \<open>
  The shape the source takes for granted: eight rows of eight squares.
\<close>

definition wf_board :: "BoardState \<Rightarrow> bool" where
  "wf_board b = (length b = 8 \<and> list_all (\<lambda>r. length r = 8) b)"

text \<open>
  The data model of the rules engine: every piece belongs to Red or to Black
  (\<open>Player.None\<close> is a sentinel that no function of the engine gives to a piece).
\<close>

definition ownersRedBlack :: "BoardState \<Rightarrow> bool" where
  "ownersRedBlack b =
     list_all (list_all (\<lambda>sq. case sq of None \<Rightarrow> True
                                | Some p \<Rightarrow> player p = Red \<or> player p = Black)) b"

text \<open>
  \<open>boardAt b r c\<close> is the read \<open>board[r][c]\<close>. On an 8x8 board and a position of the
  grid it is the element of the arrays. Outside the arrays JavaScript reads
  \<open>undefined\<close> (or raises a TypeError on a missing row); the reads of the move
  generator are guarded by \<open>isValidPos\<close>, and \<open>executeMove\<close> below checks its
  positions itself, so that no result depends on the value given here outside the
  arrays.
\<close>

definition inBoard :: "BoardState \<Rightarrow> int \<Rightarrow> int \<Rightarrow> bool" where
  "inBoard b r c = (0 \<le> r \<and> 0 \<le> c \<and> nat r < length b \<and> nat c < length (b ! nat r))"

definition boardAt :: "BoardState \<Rightarrow> int \<Rightarrow> int \<Rightarrow> Piece option" where
  "boardAt b r c = (if inBoard b r c then b ! nat r ! nat c else None)"

text \<open>The write \<open>board[r][c] = v\<close> into the arrays.\<close>

definition boardSet :: "BoardState \<Rightarrow> int \<Rightarrow> int \<Rightarrow> Piece option \<Rightarrow> BoardState" where
  "boardSet b r c v =
     (if 0 \<le> r \<and> 0 \<le> c then b[nat r := (b ! nat r)[nat c := v]] else b)"

text \<open>
  The nested loops \<open>for (r = 0; r < BOARD_SIZE; r++) for (c = 0; c < BOARD_SIZE; c++)\<close>
  visit the squares in this order.
\<close>

definition boardIndices :: "int list" where
  "boardIndices = [0..BOARD_SIZE - 1]"

definition allSquares :: "(int \<times> int) list" where
  "allSquares = concat (map (\<lambda>r. map (\<lambda>c. (r, c)) boardIndices) boardIndices)"

definition createInitialBoard :: BoardState where
  "createInitialBoard =
     map (\<lambda>r. map (\<lambda>c.
            if (r + c) mod 2 = 1 then
              (if r > 5 then Some \<lparr>player = Red, type = Man\<rparr>
               else if r < 2 then Some \<lparr>player = Black, type = Man\<rparr>
               else None)
            else None) boardIndices) boardIndices"

section \<open>Move generation (gameRules.ts)\<close>

definition slideMove :: "Position \<Rightarrow> int \<Rightarrow> int \<Rightarrow> Move" where
  "slideMove pos r c =
     \<lparr>moveFrom = pos, moveTo = \<lparr>row = r, col = c\<rparr>, isCapture = False, capturedPiece = None\<rparr>"

definition captureMove :: "Position \<Rightarrow> int \<Rightarrow> int \<Rightarrow> Position \<Rightarrow> Move" where
  "captureMove pos r c captured =
     \<lparr>moveFrom = pos, moveTo = \<lparr>row = r, col = c\<rparr>, isCapture = True,
      capturedPiece = Some captured\<rparr>"

definition manDirections :: "Player \<Rightarrow> (int \<times> int) list" where
  "manDirections p = (if p = Red then [(-1, -1), (-1, 1)] else [(1, -1), (1, 1)])"

definition manSimpleMove :: "BoardState \<Rightarrow> Position \<Rightarrow> int \<times> int \<Rightarrow> Move list" where
  "manSimpleMove board pos d =
     (let nr = row pos + fst d; nc = col pos + snd d in
      if isValidPos nr nc \<and> boardAt board nr nc = None then [slideMove pos nr nc] else [])"

definition manCapture :: "BoardState \<Rightarrow> Position \<Rightarrow> Player \<Rightarrow> int \<times> int \<Rightarrow> Move list" where
  "manCapture board pos p d =
     (let midR = row pos + fst d; midC = col pos + snd d;
          landR = row pos + fst d * 2; landC = col pos + snd d * 2 in
      if isValidPos landR landC then
        (case boardAt board midR midC of
           None \<Rightarrow> []
         | Some midPiece \<Rightarrow>
             if player midPiece \<noteq> p \<and> boardAt board landR landC = None
             then [captureMove pos landR landC \<lparr>row = midR, col = midC\<rparr>] else [])
      else [])"

text \<open>
  \<open>getManMoves\<close>: the simple moves of both forward directions are pushed first, then
  the captures; \<open>moveDirs\<close> and \<open>capDirs\<close> are both \<open>directions\<close>.
\<close>

definition getManMoves :: "BoardState \<Rightarrow> Position \<Rightarrow> Player \<Rightarrow> Move list" where
  "getManMoves board pos p =
     concat (map (manSimpleMove board pos) (manDirections p)) @
     concat (map (manCapture board pos p) (manDirections p))"

definition kingDirections :: "(int \<times> int) list" where
  "kingDirections = [(-1, -1), (-1, 1), (1, -1), (1, 1)]"

text \<open>
  The \<open>while (isValidPos(r, c))\<close> loop of \<open>getKingMoves\<close> for one direction, from the
  loop state \<open>(r, c, foundOpponent, opponentPos)\<close>; the result is the list of the moves
  the loop pushes from there on. Each \<open>break\<close> ends the list. The source runs the loop
  with the four steps of \<open>kingDirections\<close> only; with a step that has no row component
  the loop of the source is not followed (a zero step would never leave a square).
\<close>

function kingRay ::
  "BoardState \<Rightarrow> Position \<Rightarrow> Player \<Rightarrow> int \<Rightarrow> int \<Rightarrow> int \<Rightarrow> int \<Rightarrow> bool \<Rightarrow> Position option
   \<Rightarrow> Move list" where
  "kingRay board pos p dr dc r c foundOpponent opponentPos =
     (if isValidPos r c \<and> dr \<noteq> 0 then
        (case boardAt board r c of
           None \<Rightarrow>
             if \<not> foundOpponent then
               slideMove pos r c #
                 kingRay board pos p dr dc (r + dr) (c + dc) foundOpponent opponentPos
             else
               (case opponentPos of
                  Some opp \<Rightarrow> [captureMove pos r c opp]
                | None \<Rightarrow>
                    kingRay board pos p dr dc (r + dr) (c + dc) foundOpponent opponentPos)
         | Some currentPiece \<Rightarrow>
             if player currentPiece = p then []
             else if foundOpponent then []
             else kingRay board pos p dr dc (r + dr) (c + dc) True
                    (Some \<lparr>row = r, col = c\<rparr>))
      else [])"
  by pat_completeness auto
termination
  by (relation "measure (\<lambda>(board, pos, p, dr, dc, r, c, f, opp).
        if dr > 0 then nat (BOARD_SIZE - r) else nat (r + 1))")
     (auto simp: isValidPos_def BOARD_SIZE_def)

declare kingRay.simps [simp del]

definition getKingMoves :: "BoardState \<Rightarrow> Position \<Rightarrow> Player \<Rightarrow> Move list" where
  "getKingMoves board pos p =
     concat (map (\<lambda>d. kingRay board pos p (fst d) (snd d)
                         (row pos + fst d) (col pos + snd d) False None) kingDirections)"

definition getPieceMoves :: "BoardState \<Rightarrow> Position \<Rightarrow> Piece \<Rightarrow> Move list" where
  "getPieceMoves board pos piece =
     (if type piece = Man then getManMoves board pos (player piece)
      else getKingMoves board pos (player piece))"

text \<open>The forced-capture filter at the end of \<open>getValidMoves\<close>.\<close>

definition forcedCaptures :: "Move list \<Rightarrow> Move list" where
  "forcedCaptures moves =
     (let captureMoves = filter isCapture moves in
      if length captureMoves > 0 then captureMoves else moves)"

definition squareMoves :: "BoardState \<Rightarrow> Player \<Rightarrow> int \<times> int \<Rightarrow> Move list" where
  "squareMoves board p sq =
     (case boardAt board (fst sq) (snd sq) of
        None \<Rightarrow> []
      | Some piece \<Rightarrow>
          if player piece = p then getPieceMoves board \<lparr>row = fst sq, col = snd sq\<rparr> piece
          else [])"

text \<open>
  \<open>getValidMoves\<close>. With a \<open>mustMovePiece\<close> the source reads its square unguarded; a
  position of the grid is the caller's duty (outside the grid the source finds
  \<open>undefined\<close>, hence no move, on a missing column and raises a TypeError on a
  missing row; the model has no move in both cases).
\<close>

definition getValidMoves :: "BoardState \<Rightarrow> Player \<Rightarrow> Position option \<Rightarrow> Move list" where
  "getValidMoves board p mustMovePiece =
     forcedCaptures
       (case mustMovePiece of
          Some must \<Rightarrow>
            (case boardAt board (row must) (col must) of
               None \<Rightarrow> []
             | Some piece \<Rightarrow>
                 if player piece = p then getPieceMoves board must piece else [])
        | None \<Rightarrow> concat (map (squareMoves board p) allSquares))"

section \<open>State update (gameRules.ts)\<close>

text \<open>
  The outcomes of \<open>executeMove\<close> that return no result: the thrown
  \<open>Error("No piece at from position")\<close>; the TypeError JavaScript raises on indexing a
  missing row (\<open>newBoard[r]\<close> is \<open>undefined\<close> for a row outside the board); and a
  write into a column outside a row, after which the value the source returns is no
  longer an 8x8 grid, which this model does not follow (\<open>LeavesGrid\<close>).
\<close>

datatype error = NoPieceAtFrom | TypeError | LeavesGrid

definition isValidIndex :: "int \<Rightarrow> bool" where
  "isValidIndex i = (0 \<le> i \<and> i < BOARD_SIZE)"

definition promotes :: "Piece \<Rightarrow> Move \<Rightarrow> bool" where
  "promotes piece move =
     (type piece = Man \<and>
      ((player piece = Red \<and> row (moveTo move) = 0) \<or>
       (player piece = Black \<and> row (moveTo move) = BOARD_SIZE - 1)))"

text \<open>
  \<open>executeMove\<close> on the value of the copied board. The source moves a reference to the
  piece object to \<open>move.to\<close> and promotes the object at the end, so the square
  \<open>move.to\<close> shows the promoted piece unless one of the later writes of \<open>null\<close>
  (to \<open>move.from\<close>, to \<open>move.capturedPiece\<close>) has overwritten the reference; here the
  promoted piece is written in the first place and the writes keep the order of the
  source. The section on the heap of objects below runs the statements on the
  objects themselves.
\<close>

definition executeMove :: "BoardState \<Rightarrow> Move \<Rightarrow> error + (BoardState \<times> bool)" where
  "executeMove currentBoard move =
     (if \<not> isValidIndex (row (moveFrom move)) then Inl TypeError
      else
        (case boardAt currentBoard (row (moveFrom move)) (col (moveFrom move)) of
           None \<Rightarrow> Inl NoPieceAtFrom
         | Some piece \<Rightarrow>
             if \<not> isValidIndex (row (moveTo move)) then Inl TypeError
             else if isCapture move \<and>
                     (case capturedPiece move of None \<Rightarrow> False
                      | Some cp \<Rightarrow> \<not> isValidIndex (row cp)) then Inl TypeError
             else if \<not> isValidIndex (col (moveTo move)) \<or>
                     (isCapture move \<and>
                      (case capturedPiece move of None \<Rightarrow> False
                       | Some cp \<Rightarrow> \<not> isValidIndex (col cp))) then Inl LeavesGrid
             else
               (let promoted = promotes piece move;
                    piece' = (if promoted then piece\<lparr>type := King\<rparr> else piece);
                    b1 = boardSet currentBoard (row (moveTo move)) (col (moveTo move))
                           (Some piece');
                    b2 = boardSet b1 (row (moveFrom move)) (col (moveFrom move)) None;
                    b3 = (if isCapture move then
                            (case capturedPiece move of None \<Rightarrow> b2
                             | Some cp \<Rightarrow> boardSet b2 (row cp) (col cp) None)
                          else b2)
                in Inr (b3, promoted))))"

definition countPlayer :: "BoardState \<Rightarrow> Player \<Rightarrow> nat" where
  "countPlayer board p =
     length (filter (\<lambda>sq. case boardAt board (fst sq) (snd sq) of
                             None \<Rightarrow> False | Some piece \<Rightarrow> player piece = p) allSquares)"

definition checkWinner :: "BoardState \<Rightarrow> Player option" where
  "checkWinner board =
     (let redCount = countPlayer board Red; blackCount = countPlayer board Black in
      if redCount = 0 then Some Black
      else if blackCount = 0 then Some Red
      else
        (let redValid = getValidMoves board Red None;
             blackValid = getValidMoves board Black None in
         if length redValid = 0 then Some Black
         else if length blackValid = 0 then Some Red
         else None))"

section \<open>Evaluation (ai.ts)\<close>

definition SCORES_MAN :: int where "SCORES_MAN = 100"
definition SCORES_KING :: int where "SCORES_KING = 300"
definition SCORES_WIN :: int where "SCORES_WIN = 10000"

text \<open>One iteration of the loop body of \<open>evaluateBoard\<close>, on the running score.\<close>

definition evalSquare :: "BoardState \<Rightarrow> Player \<Rightarrow> int \<Rightarrow> int \<times> int \<Rightarrow> int" where
  "evalSquare board p score sq =
     (case boardAt board (fst sq) (snd sq) of
        None \<Rightarrow> score
      | Some piece \<Rightarrow>
          (let pieceValue = (if type piece = King then SCORES_KING else SCORES_MAN) in
           if player piece = p then
             (if type piece = Man
              then score + pieceValue + (if p = Red then 7 - fst sq else fst sq) * 2
              else score + pieceValue)
           else
             (if type piece = Man
              then score - pieceValue
                     - (if player piece = Red then 7 - fst sq else fst sq) * 2
              else score - pieceValue)))"

definition evaluateBoard :: "BoardState \<Rightarrow> Player \<Rightarrow> int" where
  "evaluateBoard board p =
     (let winner = checkWinner board in
      if winner = Some p then SCORES_WIN
      else if winner \<noteq> None \<and> winner \<noteq> Some p then - SCORES_WIN
      else foldl (evalSquare board p) 0 allSquares)"

section \<open>Squares along a ray\<close>

text \<open>
  Vocabulary for the statements about kings: the square \<open>k\<close> steps from \<open>start\<close> in
  direction \<open>d\<close>, the occupant of a square, and what lies between a king and a
  square of its ray.
\<close>

definition rayPos :: "Position \<Rightarrow> int \<times> int \<Rightarrow> int \<Rightarrow> Position" where
  "rayPos start d k = \<lparr>row = row start + k * fst d, col = col start + k * snd d\<rparr>"

definition pieceAt :: "BoardState \<Rightarrow> Position \<Rightarrow> Piece option" where
  "pieceAt b sq = boardAt b (row sq) (col sq)"

definition onGrid :: "Position \<Rightarrow> bool" where
  "onGrid sq = isValidPos (row sq) (col sq)"

definition emptyBetween :: "BoardState \<Rightarrow> Position \<Rightarrow> int \<times> int \<Rightarrow> int \<Rightarrow> bool" where
  "emptyBetween b start d k = (\<forall>j \<in> {1..<k}. pieceAt b (rayPos start d j) = None)"

definition enemyAt :: "BoardState \<Rightarrow> Player \<Rightarrow> Position \<Rightarrow> bool" where
  "enemyAt b p sq = (case pieceAt b sq of None \<Rightarrow> False | Some q \<Rightarrow> player q \<noteq> p)"


text \<open>
  A king's move to the square \<open>k\<close> steps along \<open>d\<close>: the square is on the grid and
  empty, and either every square before it is empty and the move is a slide, or the
  square just before it holds an enemy piece, every square before that one is empty,
  and the move captures that piece.
\<close>

definition kingMoveAlong ::
  "BoardState \<Rightarrow> Position \<Rightarrow> Player \<Rightarrow> int \<times> int \<Rightarrow> int \<Rightarrow> Move \<Rightarrow> bool" where
  "kingMoveAlong b start p d k m =
     (onGrid (rayPos start d k) \<and> pieceAt b (rayPos start d k) = None \<and>
      ((\<not> isCapture m \<and> capturedPiece m = None \<and> emptyBetween b start d k) \<or>
       (isCapture m \<and> 2 \<le> k \<and> capturedPiece m = Some (rayPos start d (k - 1)) \<and>
        enemyAt b p (rayPos start d (k - 1)) \<and> emptyBetween b start d (k - 1))))"


text \<open>
  The same for a move pushed by the loop of \<open>kingRay\<close> started in the state
  \<open>(r, c, false, null)\<close>, on the square \<open>k\<close> iterations further on.
\<close>

definition rayStepMove ::
  "BoardState \<Rightarrow> Position \<Rightarrow> Player \<Rightarrow> int \<Rightarrow> int \<Rightarrow> int \<Rightarrow> int \<Rightarrow> nat \<Rightarrow> Move \<Rightarrow> bool" where
  "rayStepMove b start p dr dc r c k m =
     (isValidPos (r + int k * dr) (c + int k * dc) \<and>
      boardAt b (r + int k * dr) (c + int k * dc) = None \<and>
      ((m = slideMove start (r + int k * dr) (c + int k * dc) \<and>
        (\<forall>j < k. boardAt b (r + int j * dr) (c + int j * dc) = None)) \<or>
       (\<exists>k'. k = Suc k' \<and>
          m = captureMove start (r + int k * dr) (c + int k * dc)
                \<lparr>row = r + int k' * dr, col = c + int k' * dc\<rparr> \<and>
          (\<exists>q. boardAt b (r + int k' * dr) (c + int k' * dc) = Some q \<and> player q \<noteq> p) \<and>
          (\<forall>j < k'. boardAt b (r + int j * dr) (c + int j * dc) = None))))"


section \<open>Example boards\<close>

definition emptyBoard :: BoardState where
  "emptyBoard = replicate 8 (replicate 8 None)"

definition place :: "BoardState \<Rightarrow> int \<Rightarrow> int \<Rightarrow> Player \<Rightarrow> PieceType \<Rightarrow> BoardState" where
  "place b r c p t = boardSet b r c (Some \<lparr>player = p, type = t\<rparr>)"

definition pos :: "int \<Rightarrow> int \<Rightarrow> Position" where
  "pos r c = \<lparr>row = r, col = c\<rparr>"

text \<open>A Black man at (3,2) and a Red man at (5,3): the board of the end-to-end scenario.\<close>

definition scenarioBoard :: BoardState where
  "scenarioBoard = place (place emptyBoard 3 2 Black Man) 5 3 Red Man"

text \<open>The same with the Black man on (4,2), diagonally next to the Red man.\<close>

definition adjacentBoard :: BoardState where
  "adjacentBoard = place (place emptyBoard 4 2 Black Man) 5 3 Red Man"

text \<open>A Red man that can capture, and a second Red man on (5,7) that can only slide.\<close>

definition twoMenBoard :: BoardState where
  "twoMenBoard = place adjacentBoard 5 7 Red Man"

text \<open>A Red man on its last row and a Black man on its last row: nobody can move.\<close>

definition stalemateBoard :: BoardState where
  "stalemateBoard = place (place emptyBoard 0 1 Red Man) 7 0 Black Man"

text \<open>A Red man, a Red king and a Black man, all able to move.\<close>

definition unevenBoard :: BoardState where
  "unevenBoard = place (place (place emptyBoard 5 2 Red Man) 7 0 Red King) 2 3 Black Man"

text \<open>A single Red man on (5,3), and next to it a Black man on (4,4).\<close>

definition loneManBoard :: BoardState where
  "loneManBoard = place emptyBoard 5 3 Red Man"

definition crowdedBoard :: BoardState where
  "crowdedBoard = place loneManBoard 4 4 Black Man"

text \<open>A Red king on (7,0) and a Black man on (4,3), three steps up its diagonal.\<close>

definition flyingBoard :: BoardState where
  "flyingBoard = place (place emptyBoard 4 3 Black Man) 7 0 Red King"

section \<open>Reading and writing squares\<close>

lemma boardIndices_eq: "boardIndices = [0, 1, 2, 3, 4, 5, 6, 7]"
  unfolding boardIndices_def BOARD_SIZE_def by code_simp

lemma inBoard_boardSet: "inBoard (boardSet b r c v) r' c' = inBoard b r' c'"
  by (cases "nat r' = nat r") (auto simp: inBoard_def boardSet_def nth_list_update)

lemma boardAt_boardSet:
  "boardAt (boardSet b r c v) r' c' =
     (if r' = r \<and> c' = c \<and> inBoard b r c then v else boardAt b r' c')"
proof (cases "inBoard b r c")
  case False
  then have "boardSet b r c v = b"
    by (auto simp: inBoard_def boardSet_def list_update_beyond)
  with False show ?thesis by simp
next
  case inb: True
  then have nonneg: "0 \<le> r" "0 \<le> c" and rng: "nat r < length b"
    by (simp_all add: inBoard_def)
  show ?thesis
  proof (cases "inBoard b r' c'")
    case False
    then show ?thesis
      using inBoard_boardSet[of b r c v r' c'] inb by (auto simp: boardAt_def)
  next
    case True
    then have eqs: "(nat r' = nat r) = (r' = r)" "(nat c' = nat c) = (c' = c)"
      using nonneg by (auto simp: inBoard_def)
    from True inb have "inBoard (boardSet b r c v) r' c'"
      by (simp add: inBoard_boardSet)
    with True inb eqs nonneg rng show ?thesis
      by (cases "r' = r") (auto simp: boardAt_def boardSet_def inBoard_def nth_list_update)
  qed
qed

lemma wf_board_boardSet: "wf_board b \<Longrightarrow> wf_board (boardSet b r c v)"
proof (cases "nat r < length b")
  case True
  assume "wf_board b"
  with True show ?thesis
    by (auto simp: wf_board_def boardSet_def list_all_length nth_list_update)
next
  case False
  assume "wf_board b"
  with False show ?thesis
    by (simp add: boardSet_def list_update_beyond)
qed

lemma wf_inBoard: "wf_board b \<Longrightarrow> isValidPos r c \<Longrightarrow> inBoard b r c"
  by (auto simp: wf_board_def isValidPos_def BOARD_SIZE_def list_all_length inBoard_def)

lemma wf_inBoard_iff: "wf_board b \<Longrightarrow> inBoard b r c = isValidPos r c"
  by (auto simp: wf_board_def isValidPos_def BOARD_SIZE_def list_all_length inBoard_def)

lemma boardAt_Some_inBoard: "boardAt b r c = Some x \<Longrightarrow> inBoard b r c"
  by (auto simp: boardAt_def split: if_splits)

lemma owner_at:
  "ownersRedBlack b \<Longrightarrow> boardAt b r c = Some piece \<Longrightarrow>
   player piece = Red \<or> player piece = Black"
  by (auto simp: ownersRedBlack_def boardAt_def inBoard_def list_all_length
           split: if_splits option.splits)

section \<open>Mandatory capture\<close>

lemma forcedCaptures_filter:
  "\<exists>m \<in> set (forcedCaptures ms). isCapture m \<Longrightarrow> forcedCaptures ms = filter isCapture ms"
  by (auto simp: forcedCaptures_def Let_def filter_empty_conv split: if_splits)

text \<open>
  Claim C2. If the list returned by \<open>getValidMoves\<close> (with or without a
  \<open>mustMovePiece\<close>) holds a capture, every move of it is a capture. The filter runs
  over the moves of all pieces together: as soon as one square of the player yields a
  capture, the result is the captures of each square in turn, so a piece that can only
  slide contributes nothing.
\<close>

theorem mandatory_capture:
  "((\<exists>m \<in> set (getValidMoves b p a). isCapture m) \<longrightarrow>
      (\<forall>m \<in> set (getValidMoves b p a). isCapture m)) \<and>
   ((\<exists>sq \<in> set allSquares. \<exists>m \<in> set (squareMoves b p sq). isCapture m) \<longrightarrow>
      getValidMoves b p None =
        concat (map (\<lambda>sq. filter isCapture (squareMoves b p sq)) allSquares))"
proof -
  have one: "(\<exists>m \<in> set (getValidMoves b p a). isCapture m) \<longrightarrow>
      (\<forall>m \<in> set (getValidMoves b p a). isCapture m)"
  proof
    assume ex: "\<exists>m \<in> set (getValidMoves b p a). isCapture m"
    obtain ms where ms: "getValidMoves b p a = forcedCaptures ms"
      by (simp add: getValidMoves_def)
    with ex forcedCaptures_filter[of ms] have "getValidMoves b p a = filter isCapture ms"
      by simp
    then show "\<forall>m \<in> set (getValidMoves b p a). isCapture m" by simp
  qed
  have two: "(\<exists>sq \<in> set allSquares. \<exists>m \<in> set (squareMoves b p sq). isCapture m) \<longrightarrow>
      getValidMoves b p None =
        concat (map (\<lambda>sq. filter isCapture (squareMoves b p sq)) allSquares)"
  proof
    assume "\<exists>sq \<in> set allSquares. \<exists>m \<in> set (squareMoves b p sq). isCapture m"
    then have "filter isCapture (concat (map (squareMoves b p) allSquares)) \<noteq> []"
      by (auto simp: filter_empty_conv)
    then have "getValidMoves b p None =
        filter isCapture (concat (map (squareMoves b p) allSquares))"
      by (simp add: getValidMoves_def forcedCaptures_def Let_def)
    then show "getValidMoves b p None =
        concat (map (\<lambda>sq. filter isCapture (squareMoves b p sq)) allSquares)"
      by (simp add: filter_concat comp_def)
  qed
  from one two show ?thesis by blast
qed

text \<open>
  On \<open>twoMenBoard\<close> the man on (5,3) captures and the man on (5,7) could slide to
  (4,6); the result is the one capture.
\<close>

theorem mandatory_capture_witness:
  "(\<exists>m \<in> set (getValidMoves twoMenBoard Red None). isCapture m) \<and>
   (\<exists>sq \<in> set allSquares. \<exists>m \<in> set (squareMoves twoMenBoard Red sq). isCapture m) \<and>
   squareMoves twoMenBoard Red (5, 7) = [slideMove (pos 5 7) 4 6] \<and>
   list_all isCapture (getValidMoves twoMenBoard Red None) \<and>
   getValidMoves twoMenBoard Red None = [captureMove (pos 5 3) 3 1 (pos 4 2)] \<and>
   getValidMoves twoMenBoard Red None =
     concat (map (\<lambda>sq. filter isCapture (squareMoves twoMenBoard Red sq)) allSquares)"
proof -
  have res: "getValidMoves twoMenBoard Red None = [captureMove (pos 5 3) 3 1 (pos 4 2)]"
    by code_simp
  have sl: "squareMoves twoMenBoard Red (5, 7) = [slideMove (pos 5 7) 4 6]"
    by code_simp
  have sq: "squareMoves twoMenBoard Red (5, 3) =
      [slideMove (pos 5 3) 4 4, captureMove (pos 5 3) 3 1 (pos 4 2)]"
    by code_simp
  have mem: "(5, 3) \<in> set allSquares"
    by (simp add: allSquares_def boardIndices_eq)
  have ex1: "\<exists>m \<in> set (getValidMoves twoMenBoard Red None). isCapture m"
    by (simp add: res captureMove_def)
  have ex2: "\<exists>sq \<in> set allSquares. \<exists>m \<in> set (squareMoves twoMenBoard Red sq). isCapture m"
    using mem sq by (intro bexI[of _ "(5, 3)"]) (simp_all add: captureMove_def)
  from mandatory_capture[of twoMenBoard Red None] ex1 ex2
  have "(\<forall>m \<in> set (getValidMoves twoMenBoard Red None). isCapture m) \<and>
        getValidMoves twoMenBoard Red None =
          concat (map (\<lambda>sq. filter isCapture (squareMoves twoMenBoard Red sq)) allSquares)"
    by blast
  then have all: "list_all isCapture (getValidMoves twoMenBoard Red None)"
    and glob: "getValidMoves twoMenBoard Red None =
          concat (map (\<lambda>sq. filter isCapture (squareMoves twoMenBoard Red sq)) allSquares)"
    unfolding list_all_iff by blast+
  from ex1 ex2 sl all res glob show ?thesis by blast
qed

section \<open>The end-to-end scenario\<close>

text \<open>
  Claim C7 as stated fails: on \<open>scenarioBoard\<close> the Black man on (3,2) is not on a
  diagonal of the Red man on (5,3), and the result is the two slides of the Red man.
\<close>

theorem scenario_counterexample:
  "getValidMoves scenarioBoard Red None =
     [slideMove (pos 5 3) 4 2, slideMove (pos 5 3) 4 4] \<and>
   getValidMoves scenarioBoard Red None \<noteq> [captureMove (pos 5 3) 2 1 (pos 3 2)]"
  by code_simp

text \<open>
  Claim C7, amended. On the board that is empty except for a Black man at (3,2) and a
  Red man at (5,3), \<open>getValidMoves\<close> for Red returns exactly the two slides to (4,2)
  and (4,4) and no capture. With the Black man at (4,2), diagonally next to the Red
  man, it returns exactly one move: the capture from (5,3) landing at (3,1) with
  \<open>capturedPiece = (4,2)\<close>, and no slide.
\<close>

theorem scenario_moves:
  "getValidMoves scenarioBoard Red None =
     [slideMove (pos 5 3) 4 2, slideMove (pos 5 3) 4 4] \<and>
   getValidMoves adjacentBoard Red None = [captureMove (pos 5 3) 3 1 (pos 4 2)]"
  by code_simp

section \<open>Terminal detection\<close>

text \<open>
  Claim C10. When both players have a piece and neither has a move, \<open>checkWinner\<close>
  returns Black: Red's empty list is tested first.
\<close>

theorem checkWinner_double_stalemate:
  "countPlayer b Red > 0 \<Longrightarrow> countPlayer b Black > 0 \<Longrightarrow>
   getValidMoves b Red None = [] \<Longrightarrow> getValidMoves b Black None = [] \<Longrightarrow>
   checkWinner b = Some Black"
  by (simp add: checkWinner_def Let_def)

theorem checkWinner_double_stalemate_witness:
  "countPlayer stalemateBoard Red = 1 \<and> countPlayer stalemateBoard Black = 1 \<and>
   getValidMoves stalemateBoard Red None = [] \<and>
   getValidMoves stalemateBoard Black None = [] \<and>
   checkWinner stalemateBoard = Some Black"
proof -
  have r: "countPlayer stalemateBoard Red = 1" by code_simp
  have b: "countPlayer stalemateBoard Black = 1" by code_simp
  have mr: "getValidMoves stalemateBoard Red None = []" by code_simp
  have mb: "getValidMoves stalemateBoard Black None = []" by code_simp
  from r b mr mb checkWinner_double_stalemate[of stalemateBoard]
  show ?thesis by simp
qed

section \<open>Failure of executeMove\<close>

text \<open>
  Claim C3. On an 8x8 board, for a move whose \<open>from\<close>, \<open>to\<close> and (if present)
  \<open>capturedPiece\<close> are on the grid, \<open>executeMove\<close> fails if and only if the square
  \<open>move.from\<close> is empty, and then with the thrown error; when the square is occupied it
  returns a board (again 8x8) and the promoted flag.
\<close>

theorem executeMove_throws_iff:
  assumes wf: "wf_board b"
    and vf: "isValidPos (row (moveFrom m)) (col (moveFrom m))"
    and vt: "isValidPos (row (moveTo m)) (col (moveTo m))"
    and vc: "case capturedPiece m of None \<Rightarrow> True | Some cp \<Rightarrow> isValidPos (row cp) (col cp)"
  shows "((\<exists>e. executeMove b m = Inl e) \<longleftrightarrow>
            boardAt b (row (moveFrom m)) (col (moveFrom m)) = None) \<and>
         (boardAt b (row (moveFrom m)) (col (moveFrom m)) = None \<longrightarrow>
            executeMove b m = Inl NoPieceAtFrom) \<and>
         (boardAt b (row (moveFrom m)) (col (moveFrom m)) \<noteq> None \<longrightarrow>
            (\<exists>nb pr. executeMove b m = Inr (nb, pr) \<and> wf_board nb))"
proof (cases "boardAt b (row (moveFrom m)) (col (moveFrom m))")
  case None
  with vf show ?thesis
    by (simp add: executeMove_def isValidPos_def isValidIndex_def)
next
  case (Some piece)
  from vf vt vc have ok:
    "isValidIndex (row (moveFrom m))" "isValidIndex (row (moveTo m))"
    "isValidIndex (col (moveTo m))"
    "\<And>cp. capturedPiece m = Some cp \<Longrightarrow> isValidIndex (row cp) \<and> isValidIndex (col cp)"
    by (auto simp: isValidPos_def isValidIndex_def)
  have "\<exists>nb pr. executeMove b m = Inr (nb, pr) \<and> wf_board nb"
    using Some ok wf
    by (cases "capturedPiece m") (auto simp: executeMove_def Let_def wf_board_boardSet)
  with Some show ?thesis by auto
qed

text \<open>
  On \<open>loneManBoard\<close> the slide from the empty square (4,2) fails with the thrown error,
  and the slide of the man on (5,3) returns a board.
\<close>

theorem executeMove_throws_iff_witness:
  "wf_board loneManBoard \<and>
   boardAt loneManBoard 4 2 = None \<and>
   executeMove loneManBoard (slideMove (pos 4 2) 3 1) = Inl NoPieceAtFrom \<and>
   boardAt loneManBoard 5 3 = Some \<lparr>player = Red, type = Man\<rparr> \<and>
   (\<exists>nb pr. executeMove loneManBoard (slideMove (pos 5 3) 4 2) = Inr (nb, pr) \<and> wf_board nb)"
proof -
  have wf: "wf_board loneManBoard" by code_simp
  have e: "boardAt loneManBoard 4 2 = None" by code_simp
  have o: "boardAt loneManBoard 5 3 = Some \<lparr>player = Red, type = Man\<rparr>" by code_simp
  have v1: "isValidPos (row (moveFrom (slideMove (pos 4 2) 3 1)))
              (col (moveFrom (slideMove (pos 4 2) 3 1)))"
       "isValidPos (row (moveTo (slideMove (pos 4 2) 3 1)))
              (col (moveTo (slideMove (pos 4 2) 3 1)))"
       "case capturedPiece (slideMove (pos 4 2) 3 1) of None \<Rightarrow> True
        | Some cp \<Rightarrow> isValidPos (row cp) (col cp)"
    by (simp_all add: slideMove_def pos_def isValidPos_def BOARD_SIZE_def)
  have v2: "isValidPos (row (moveFrom (slideMove (pos 5 3) 4 2)))
              (col (moveFrom (slideMove (pos 5 3) 4 2)))"
       "isValidPos (row (moveTo (slideMove (pos 5 3) 4 2)))
              (col (moveTo (slideMove (pos 5 3) 4 2)))"
       "case capturedPiece (slideMove (pos 5 3) 4 2) of None \<Rightarrow> True
        | Some cp \<Rightarrow> isValidPos (row cp) (col cp)"
    by (simp_all add: slideMove_def pos_def isValidPos_def BOARD_SIZE_def)
  have f1: "row (moveFrom (slideMove (pos 4 2) 3 1)) = 4"
          "col (moveFrom (slideMove (pos 4 2) 3 1)) = 2"
    and f2: "row (moveFrom (slideMove (pos 5 3) 4 2)) = 5"
          "col (moveFrom (slideMove (pos 5 3) 4 2)) = 3"
    by (simp_all add: slideMove_def pos_def)
  from executeMove_throws_iff[OF wf v1] e
  have a: "executeMove loneManBoard (slideMove (pos 4 2) 3 1) = Inl NoPieceAtFrom"
    unfolding f1 by blast
  from executeMove_throws_iff[OF wf v2] o
  have b: "\<exists>nb pr. executeMove loneManBoard (slideMove (pos 5 3) 4 2) = Inr (nb, pr) \<and>
             wf_board nb"
    unfolding f2 by simp
  from wf e o a b show ?thesis by simp
qed

section \<open>executeMove does not look at the destination\<close>

definition sameSquareMove :: Move where
  "sameSquareMove = slideMove (pos 5 3) 5 3"

text \<open>
  Claim C9 as stated fails where \<open>move.to\<close> is \<open>move.from\<close>: both are occupied (by the
  moving piece), the piece is written to the square and the square is then cleared,
  so the result holds no piece at \<open>move.to\<close>.
\<close>

theorem executeMove_same_square_counterexample:
  "boardAt loneManBoard 5 3 = Some \<lparr>player = Red, type = Man\<rparr> \<and>
   moveFrom sameSquareMove = pos 5 3 \<and> moveTo sameSquareMove = pos 5 3 \<and>
   executeMove loneManBoard sameSquareMove = Inr (emptyBoard, False) \<and>
   boardAt emptyBoard 5 3 = None"
  by code_simp

text \<open>
  Claim C9, amended. \<open>executeMove\<close> never looks at the destination: on an 8x8 board,
  for a move on the grid whose \<open>from\<close> and \<open>to\<close> are both occupied and are different
  squares, and whose \<open>capturedPiece\<close> (when \<open>isCapture\<close> is set) is not \<open>to\<close>, it
  returns without error, the square \<open>to\<close> holds the moving piece (promoted when the
  move promotes) in place of its former occupant, and \<open>from\<close> is empty. This holds
  for \<open>isCapture = false\<close> too, so a move that was not generated can destroy a piece.
\<close>

theorem executeMove_overwrites_destination:
  assumes wf: "wf_board b"
    and vf: "isValidPos (row (moveFrom m)) (col (moveFrom m))"
    and vt: "isValidPos (row (moveTo m)) (col (moveTo m))"
    and vc: "case capturedPiece m of None \<Rightarrow> True | Some cp \<Rightarrow> isValidPos (row cp) (col cp)"
    and occF: "boardAt b (row (moveFrom m)) (col (moveFrom m)) = Some piece"
    and occT: "boardAt b (row (moveTo m)) (col (moveTo m)) = Some victim"
    and ne: "\<not> isSamePos (moveFrom m) (moveTo m)"
    and nc: "case capturedPiece m of None \<Rightarrow> True
             | Some cp \<Rightarrow> isCapture m \<longrightarrow> \<not> isSamePos cp (moveTo m)"
  shows "\<exists>nb. executeMove b m = Inr (nb, promotes piece m) \<and>
           boardAt nb (row (moveTo m)) (col (moveTo m)) =
             Some (if promotes piece m then piece\<lparr>type := King\<rparr> else piece) \<and>
           boardAt nb (row (moveFrom m)) (col (moveFrom m)) = None"
proof -
  from vf vt vc have ok:
    "isValidIndex (row (moveFrom m))" "isValidIndex (row (moveTo m))"
    "isValidIndex (col (moveTo m))"
    "\<And>cp. capturedPiece m = Some cp \<Longrightarrow> isValidIndex (row cp) \<and> isValidIndex (col cp)"
    by (auto simp: isValidPos_def isValidIndex_def)
  from wf vf vt have rng:
    "inBoard b (row (moveFrom m)) (col (moveFrom m))"
    "inBoard b (row (moveTo m)) (col (moveTo m))"
    by (simp_all add: wf_inBoard)
  show ?thesis
  proof (cases "capturedPiece m")
    case None
    with ok occF rng ne show ?thesis
      by (auto simp: executeMove_def Let_def boardAt_boardSet inBoard_boardSet isSamePos_def)
  next
    case (Some cp)
    with ok occF rng ne nc show ?thesis
      by (auto simp: executeMove_def Let_def boardAt_boardSet inBoard_boardSet isSamePos_def)
  qed
qed

text \<open>
  On \<open>crowdedBoard\<close> the slide of the Red man from (5,3) onto the Black man on (4,4),
  with \<open>isCapture = false\<close>, returns a board on which Black has no piece left.
\<close>

theorem executeMove_overwrites_destination_witness:
  "wf_board crowdedBoard \<and>
   boardAt crowdedBoard 5 3 = Some \<lparr>player = Red, type = Man\<rparr> \<and>
   boardAt crowdedBoard 4 4 = Some \<lparr>player = Black, type = Man\<rparr> \<and>
   \<not> isCapture (slideMove (pos 5 3) 4 4) \<and>
   executeMove crowdedBoard (slideMove (pos 5 3) 4 4) =
     Inr (place emptyBoard 4 4 Red Man, False) \<and>
   countPlayer crowdedBoard Black = 1 \<and>
   countPlayer (place emptyBoard 4 4 Red Man) Black = 0 \<and>
   (\<exists>nb. executeMove crowdedBoard (slideMove (pos 5 3) 4 4) =
            Inr (nb, promotes \<lparr>player = Red, type = Man\<rparr> (slideMove (pos 5 3) 4 4)) \<and>
          boardAt nb 4 4 = Some \<lparr>player = Red, type = Man\<rparr> \<and> boardAt nb 5 3 = None)"
proof -
  let ?m = "slideMove (pos 5 3) 4 4"
  let ?red = "\<lparr>player = Red, type = Man\<rparr>"
  let ?black = "\<lparr>player = Black, type = Man\<rparr>"
  have sel: "row (moveFrom ?m) = 5" "col (moveFrom ?m) = 3"
            "row (moveTo ?m) = 4" "col (moveTo ?m) = 4" "capturedPiece ?m = None"
            "\<not> isCapture ?m"
    by (simp_all add: slideMove_def pos_def)
  have wf: "wf_board crowdedBoard" by code_simp
  have f: "boardAt crowdedBoard (row (moveFrom ?m)) (col (moveFrom ?m)) = Some ?red"
    unfolding sel by code_simp
  have t: "boardAt crowdedBoard (row (moveTo ?m)) (col (moveTo ?m)) = Some ?black"
    unfolding sel by code_simp
  have v: "isValidPos (row (moveFrom ?m)) (col (moveFrom ?m))"
          "isValidPos (row (moveTo ?m)) (col (moveTo ?m))"
    unfolding sel by (simp_all add: isValidPos_def BOARD_SIZE_def)
  have c: "case capturedPiece ?m of None \<Rightarrow> True | Some cp \<Rightarrow> isValidPos (row cp) (col cp)"
          "case capturedPiece ?m of None \<Rightarrow> True
           | Some cp \<Rightarrow> isCapture ?m \<longrightarrow> \<not> isSamePos cp (moveTo ?m)"
    by (simp_all add: sel)
  have ne: "\<not> isSamePos (moveFrom ?m) (moveTo ?m)"
    by (simp add: isSamePos_def sel)
  have np: "\<not> promotes ?red ?m"
    by (simp add: promotes_def sel BOARD_SIZE_def)
  have ex: "executeMove crowdedBoard ?m = Inr (place emptyBoard 4 4 Red Man, False)"
    by code_simp
  have c1: "countPlayer crowdedBoard Black = 1" by code_simp
  have c0: "countPlayer (place emptyBoard 4 4 Red Man) Black = 0" by code_simp
  from executeMove_overwrites_destination[OF wf v c(1) f t ne c(2)] np
  have "\<exists>nb. executeMove crowdedBoard ?m = Inr (nb, promotes ?red ?m) \<and>
          boardAt nb 4 4 = Some ?red \<and> boardAt nb 5 3 = None"
    by (simp add: sel)
  with wf f t ex c1 c0 sel show ?thesis by simp
qed

section \<open>executeMove on a heap of objects\<close>

text \<open>
  A board of the source is an array of row arrays whose squares hold references to
  piece objects, and \<open>executeMove\<close> writes into arrays and into a piece object. To
  follow which objects it writes, the statements of \<open>executeMove\<close> are run here on
  a heap: a list of objects, whose addresses are the indices. An object is a piece
  \<open>{ player, type }\<close>, a row (an array of squares, each \<open>null\<close> or the address of
  a piece) or a grid (the outer array, of the addresses of the rows). A new object
  gets the next address.
\<close>

type_synonym addr = nat

datatype object = PieceObj Piece | RowObj "addr option list" | GridObj "addr list"

type_synonym heap = "object list"

definition heapAt :: "heap \<Rightarrow> addr \<Rightarrow> object option" where
  "heapAt h a = (if a < length h then Some (h ! a) else None)"

definition alloc :: "heap \<Rightarrow> object \<Rightarrow> heap \<times> addr" where
  "alloc h obj = (h @ [obj], length h)"

text \<open>The rows of a grid, the squares of a row, the piece behind a reference.\<close>

definition rowsOf :: "heap \<Rightarrow> addr \<Rightarrow> addr list" where
  "rowsOf h b = (case heapAt h b of Some (GridObj rs) \<Rightarrow> rs | _ \<Rightarrow> [])"

definition cellsOf :: "heap \<Rightarrow> addr \<Rightarrow> addr option list" where
  "cellsOf h r = (case heapAt h r of Some (RowObj cs) \<Rightarrow> cs | _ \<Rightarrow> [])"

definition pieceOf :: "heap \<Rightarrow> addr \<Rightarrow> Piece option" where
  "pieceOf h a = (case heapAt h a of Some (PieceObj p) \<Rightarrow> Some p | _ \<Rightarrow> None)"

definition cellPiece :: "heap \<Rightarrow> addr option \<Rightarrow> Piece option" where
  "cellPiece h c = (case c of None \<Rightarrow> None | Some a \<Rightarrow> pieceOf h a)"

definition rowPieces :: "heap \<Rightarrow> addr \<Rightarrow> Piece option list" where
  "rowPieces h r = map (cellPiece h) (cellsOf h r)"

text \<open>
  The contents of the board at address \<open>b\<close>: the occupant (owner and rank) of every
  square, as a \<open>BoardState\<close> value.
\<close>

definition readBoard :: "heap \<Rightarrow> addr \<Rightarrow> BoardState" where
  "readBoard h b = map (rowPieces h) (rowsOf h b)"

text \<open>The read \<open>board[r][c]\<close> of a reference and the write \<open>board[r][c] = v\<close>.\<close>

definition readCell :: "heap \<Rightarrow> addr \<Rightarrow> int \<Rightarrow> int \<Rightarrow> addr option" where
  "readCell h b r c =
     (if 0 \<le> r \<and> 0 \<le> c \<and> nat r < length (rowsOf h b) \<and>
         nat c < length (cellsOf h (rowsOf h b ! nat r))
      then cellsOf h (rowsOf h b ! nat r) ! nat c else None)"

definition writeCell :: "heap \<Rightarrow> addr \<Rightarrow> int \<Rightarrow> int \<Rightarrow> addr option \<Rightarrow> heap" where
  "writeCell h b r c v =
     (if 0 \<le> r \<and> 0 \<le> c \<and> nat r < length (rowsOf h b) then
        (let ra = rowsOf h b ! nat r in
         case heapAt h ra of
           Some (RowObj cs) \<Rightarrow> h[ra := RowObj (cs[nat c := v])]
         | _ \<Rightarrow> h)
      else h)"

text \<open>
  The deep copy \<open>currentBoard.map(row => row.map(p => p ? { ...p } : null))\<close>:
  \<open>copyCells\<close> is the inner \<open>map\<close>, which makes a new piece object of every piece,
  \<open>copyRows\<close> the outer one, which makes a new row of every row, and \<open>copyBoard\<close>
  makes the new outer array.
\<close>

fun copyCells :: "heap \<Rightarrow> addr option list \<Rightarrow> heap \<times> addr option list" where
  "copyCells h [] = (h, [])"
| "copyCells h (c # cs) =
     (case cellPiece h c of
        None \<Rightarrow> (let (h', cs') = copyCells h cs in (h', None # cs'))
      | Some p \<Rightarrow>
          (let (h1, a) = alloc h (PieceObj p);
               (h2, cs') = copyCells h1 cs
           in (h2, Some a # cs')))"

fun copyRows :: "heap \<Rightarrow> addr list \<Rightarrow> heap \<times> addr list" where
  "copyRows h [] = (h, [])"
| "copyRows h (r # rs) =
     (let (h1, cs') = copyCells h (cellsOf h r);
          (h2, r') = alloc h1 (RowObj cs');
          (h3, rs') = copyRows h2 rs
      in (h3, r' # rs'))"

definition copyBoard :: "heap \<Rightarrow> addr \<Rightarrow> heap \<times> addr" where
  "copyBoard h b = (let (h1, rs') = copyRows h (rowsOf h b) in alloc h1 (GridObj rs'))"

text \<open>
  The promotion check at the end of \<open>executeMove\<close>: \<open>piece.type = PieceType.King\<close>
  writes into the piece object that \<open>piece\<close> refers to.
\<close>

definition promoteObj :: "heap \<Rightarrow> addr \<Rightarrow> Move \<Rightarrow> heap \<times> bool" where
  "promoteObj h pa move =
     (case pieceOf h pa of
        None \<Rightarrow> (h, False)
      | Some piece \<Rightarrow>
          if promotes piece move then (h[pa := PieceObj (piece\<lparr>type := King\<rparr>)], True)
          else (h, False))"

text \<open>
  \<open>executeMove\<close>, statement by statement, on the heap \<open>h\<close> and the board at address
  \<open>currentBoard\<close>; the result is the heap after the call and the outcome: an error
  as for \<open>executeMove\<close> above, or the address of \<open>newBoard\<close> and \<open>promoted\<close>.
\<close>

definition executeMoveH :: "heap \<Rightarrow> addr \<Rightarrow> Move \<Rightarrow> heap \<times> (error + (addr \<times> bool))" where
  "executeMoveH h currentBoard move =
     (let (h1, newBoard) = copyBoard h currentBoard in
      if \<not> isValidIndex (row (moveFrom move)) then (h1, Inl TypeError)
      else
        (case readCell h1 newBoard (row (moveFrom move)) (col (moveFrom move)) of
           None \<Rightarrow> (h1, Inl NoPieceAtFrom)
         | Some pa \<Rightarrow>
             if \<not> isValidIndex (row (moveTo move)) then (h1, Inl TypeError)
             else if isCapture move \<and>
                     (case capturedPiece move of None \<Rightarrow> False
                      | Some cp \<Rightarrow> \<not> isValidIndex (row cp)) then (h1, Inl TypeError)
             else if \<not> isValidIndex (col (moveTo move)) \<or>
                     (isCapture move \<and>
                      (case capturedPiece move of None \<Rightarrow> False
                       | Some cp \<Rightarrow> \<not> isValidIndex (col cp))) then (h1, Inl LeavesGrid)
             else
               (let h2 = writeCell h1 newBoard (row (moveTo move)) (col (moveTo move)) (Some pa);
                    h3 = writeCell h2 newBoard (row (moveFrom move)) (col (moveFrom move)) None;
                    h4 = (if isCapture move then
                            (case capturedPiece move of None \<Rightarrow> h3
                             | Some cp \<Rightarrow> writeCell h3 newBoard (row cp) (col cp) None)
                          else h3);
                    (h5, promoted) = promoteObj h4 pa move
                in (h5, Inr (newBoard, promoted)))))"

text \<open>
  Building a board of given contents in a heap, square by square (for the example
  heaps below).
\<close>

fun storeCells :: "heap \<Rightarrow> Piece option list \<Rightarrow> heap \<times> addr option list" where
  "storeCells h [] = (h, [])"
| "storeCells h (c # cs) =
     (case c of
        None \<Rightarrow> (let (h', cs') = storeCells h cs in (h', None # cs'))
      | Some p \<Rightarrow>
          (let (h1, a) = alloc h (PieceObj p);
               (h2, cs') = storeCells h1 cs
           in (h2, Some a # cs')))"

fun storeRows :: "heap \<Rightarrow> BoardState \<Rightarrow> heap \<times> addr list" where
  "storeRows h [] = (h, [])"
| "storeRows h (r # rs) =
     (let (h1, cs') = storeCells h r;
          (h2, r') = alloc h1 (RowObj cs');
          (h3, rs') = storeRows h2 rs
      in (h3, r' # rs'))"

definition storeBoard :: "heap \<Rightarrow> BoardState \<Rightarrow> heap \<times> addr" where
  "storeBoard h b = (let (h1, rs') = storeRows h b in alloc h1 (GridObj rs'))"

text \<open>
  A Red man on (1,2), one step from promotion, and a Black man on (6,1); the heap
  that holds this board and nothing else, and the address of the board in it.
\<close>

definition promoBoard :: BoardState where
  "promoBoard = place (place emptyBoard 1 2 Red Man) 6 1 Black Man"

definition promoHeap :: heap where
  "promoHeap = fst (storeBoard [] promoBoard)"

definition promoAddr :: addr where
  "promoAddr = snd (storeBoard [] promoBoard)"

text \<open>
  \<open>ownedBoard n h b\<close>: the address \<open>b\<close> holds a grid whose rows are row objects and
  whose squares are \<open>null\<close> or refer to piece objects, and all these objects, the
  grid included, have addresses from \<open>n\<close> on. With \<open>n = 0\<close> this says that \<open>b\<close> is
  a board (a \<open>BoardState\<close> of the source); with \<open>n\<close> the size of an earlier heap it
  says that the board shares no object with that heap.
\<close>

definition isRow :: "heap \<Rightarrow> addr \<Rightarrow> bool" where
  "isRow h r = (case heapAt h r of Some (RowObj cs) \<Rightarrow> True | _ \<Rightarrow> False)"

definition isGrid :: "heap \<Rightarrow> addr \<Rightarrow> bool" where
  "isGrid h b = (case heapAt h b of Some (GridObj rs) \<Rightarrow> True | _ \<Rightarrow> False)"

definition ownedCell :: "nat \<Rightarrow> heap \<Rightarrow> addr option \<Rightarrow> bool" where
  "ownedCell n h c = (case c of None \<Rightarrow> True | Some a \<Rightarrow> n \<le> a \<and> pieceOf h a \<noteq> None)"

definition ownedRow :: "nat \<Rightarrow> heap \<Rightarrow> addr \<Rightarrow> bool" where
  "ownedRow n h r = (n \<le> r \<and> isRow h r \<and> list_all (ownedCell n h) (cellsOf h r))"

definition ownedBoard :: "nat \<Rightarrow> heap \<Rightarrow> addr \<Rightarrow> bool" where
  "ownedBoard n h b = (n \<le> b \<and> isGrid h b \<and> list_all (ownedRow n h) (rowsOf h b))"

text \<open>
  \<open>heapPrefix h h'\<close>: the heap \<open>h'\<close> holds every object of \<open>h\<close>, unchanged, at its
  address, and possibly new objects after them. \<open>sameBelow n h h'\<close>: the two heaps
  have the same addresses and the same objects below \<open>n\<close>.
\<close>

definition heapPrefix :: "heap \<Rightarrow> heap \<Rightarrow> bool" where
  "heapPrefix h h' = (length h \<le> length h' \<and> take (length h) h' = h)"

definition sameBelow :: "nat \<Rightarrow> heap \<Rightarrow> heap \<Rightarrow> bool" where
  "sameBelow n h h' = (length h' = length h \<and> (\<forall>a < n. h' ! a = h ! a))"

text \<open>
  The references to pieces that a row holds, and a board that shares nothing within
  itself: \<open>separated h b\<close> says that no row object is the row of two rows of the
  board and no piece object the piece of two squares.
\<close>

definition somes :: "addr option list \<Rightarrow> addr list" where
  "somes cs = concat (map (\<lambda>c. case c of None \<Rightarrow> [] | Some a \<Rightarrow> [a]) cs)"

definition separated :: "heap \<Rightarrow> addr \<Rightarrow> bool" where
  "separated h b =
     (distinct (rowsOf h b) \<and>
      distinct (concat (map (\<lambda>r. somes (cellsOf h r)) (rowsOf h b))))"

text \<open>
  Two outcomes of \<open>executeMove\<close>, each with the heap it leaves, are the same: the same
  error, or the same promoted flag and boards of the same contents.
\<close>

definition sameOutcome ::
  "heap \<times> (error + (addr \<times> bool)) \<Rightarrow> heap \<times> (error + (addr \<times> bool)) \<Rightarrow> bool" where
  "sameOutcome x y =
     (case (snd x, snd y) of
        (Inl e1, Inl e2) \<Rightarrow> e1 = e2
      | (Inr (n1, p1), Inr (n2, p2)) \<Rightarrow> p1 = p2 \<and> readBoard (fst x) n1 = readBoard (fst y) n2
      | _ \<Rightarrow> False)"

text \<open>
  A second heap that holds a board of the contents of \<open>promoBoard\<close>, behind an
  object of its own, so that every address differs from the one in \<open>promoHeap\<close>;
  and the contents of the board after the Red man has moved to (0,1).
\<close>

definition shiftedHeap :: heap where
  "shiftedHeap = fst (storeBoard [PieceObj \<lparr>player = Black, type = King\<rparr>] promoBoard)"

definition shiftedAddr :: addr where
  "shiftedAddr = snd (storeBoard [PieceObj \<lparr>player = Black, type = King\<rparr>] promoBoard)"

definition promotedBoard :: BoardState where
  "promotedBoard = place (place emptyBoard 0 1 Red King) 6 1 Black Man"

subsection \<open>Objects that stay\<close>

lemma heapPrefix_iff: "heapPrefix h h' \<longleftrightarrow> (\<exists>ext. h' = h @ ext)"
proof
  assume "heapPrefix h h'"
  then have "h' = h @ drop (length h) h'"
    unfolding heapPrefix_def by (metis append_take_drop_id)
  then show "\<exists>ext. h' = h @ ext" ..
next
  assume "\<exists>ext. h' = h @ ext"
  then show "heapPrefix h h'" by (auto simp: heapPrefix_def)
qed

lemma heapPrefix_refl: "heapPrefix h h"
  by (simp add: heapPrefix_def)

lemma heapPrefix_trans: "heapPrefix h h1 \<Longrightarrow> heapPrefix h1 h2 \<Longrightarrow> heapPrefix h h2"
  unfolding heapPrefix_iff by auto

lemma heapPrefix_length: "heapPrefix h h' \<Longrightarrow> length h \<le> length h'"
  by (simp add: heapPrefix_def)

lemma heapPrefix_alloc: "alloc h obj = (h', a) \<Longrightarrow> heapPrefix h h'"
  by (auto simp: alloc_def heapPrefix_def)

lemma heapAt_prefix: "heapPrefix h h' \<Longrightarrow> a < length h \<Longrightarrow> heapAt h' a = heapAt h a"
  unfolding heapPrefix_iff by (auto simp: heapAt_def nth_append)

lemma heapAt_Some_lt: "heapAt h a = Some obj \<Longrightarrow> a < length h"
  by (simp add: heapAt_def split: if_splits)

lemma pieceOf_Some_lt: "pieceOf h a = Some p \<Longrightarrow> a < length h"
  by (auto simp: pieceOf_def heapAt_def split: if_splits option.splits)

lemma pieceOf_prefix: "heapPrefix h h' \<Longrightarrow> a < length h \<Longrightarrow> pieceOf h' a = pieceOf h a"
  by (simp add: pieceOf_def heapAt_prefix)

lemma cellsOf_prefix: "heapPrefix h h' \<Longrightarrow> r < length h \<Longrightarrow> cellsOf h' r = cellsOf h r"
  by (simp add: cellsOf_def heapAt_prefix)

lemma rowsOf_prefix: "heapPrefix h h' \<Longrightarrow> b < length h \<Longrightarrow> rowsOf h' b = rowsOf h b"
  by (simp add: rowsOf_def heapAt_prefix)

lemma isRow_prefix: "heapPrefix h h' \<Longrightarrow> r < length h \<Longrightarrow> isRow h' r = isRow h r"
  by (simp add: isRow_def heapAt_prefix)

lemma isRow_lt: "isRow h r \<Longrightarrow> r < length h"
  by (auto simp: isRow_def heapAt_def split: if_splits option.splits)

lemma isGrid_lt: "isGrid h r \<Longrightarrow> r < length h"
  by (auto simp: isGrid_def heapAt_def split: if_splits option.splits)

lemma ownedCell_None: "ownedCell n h None"
  by (simp add: ownedCell_def)

lemma ownedCell_Some: "ownedCell n h (Some a) = (n \<le> a \<and> pieceOf h a \<noteq> None)"
  by (simp add: ownedCell_def)

lemma ownedCell_lt: "ownedCell n h (Some a) \<Longrightarrow> a < length h"
  by (auto simp: ownedCell_def dest: pieceOf_Some_lt)

lemma cellPiece_prefix:
  assumes "heapPrefix h h'" "ownedCell 0 h c"
  shows "cellPiece h' c = cellPiece h c"
proof (cases c)
  case None
  then show ?thesis by (simp add: cellPiece_def)
next
  case (Some a)
  with assms(2) have lt: "a < length h" by (simp add: ownedCell_lt)
  from pieceOf_prefix[OF assms(1) lt] Some show ?thesis
    by (simp add: cellPiece_def)
qed

lemma ownedCell_prefix:
  assumes "heapPrefix h h'" "ownedCell n h c"
  shows "ownedCell n h' c"
proof (cases c)
  case None
  then show ?thesis by (simp add: ownedCell_None)
next
  case (Some a)
  with assms(2) have lt: "a < length h" by (simp add: ownedCell_lt)
  from pieceOf_prefix[OF assms(1) lt] assms(2) Some show ?thesis
    by (simp add: ownedCell_Some)
qed

lemma ownedCell_mono: "m \<le> n \<Longrightarrow> ownedCell n h c \<Longrightarrow> ownedCell m h c"
  by (cases c) (auto simp: ownedCell_def)

lemma ownedRow_prefix:
  assumes "heapPrefix h h'" "ownedRow n h r"
  shows "ownedRow n h' r"
proof -
  from assms(2) have lt: "r < length h" by (simp add: ownedRow_def isRow_lt)
  with assms show ?thesis
    by (auto simp: ownedRow_def isRow_prefix cellsOf_prefix list_all_iff
          intro: ownedCell_prefix)
qed

lemma copyCells_spec:
  "copyCells h cs = (h', cs') \<Longrightarrow>
   heapPrefix h h' \<and> list_all (ownedCell (length h) h') cs' \<and>
   (list_all (ownedCell 0 h) cs \<longrightarrow> map (cellPiece h') cs' = map (cellPiece h) cs)"
proof (induction cs arbitrary: h h' cs')
  case Nil
  then show ?case by (simp add: heapPrefix_refl)
next
  case (Cons c cs)
  show ?case
  proof (cases "cellPiece h c")
    case None
    obtain h2 cs2 where r: "copyCells h cs = (h2, cs2)" by (cases "copyCells h cs")
    with Cons.prems None have eq: "h' = h2" "cs' = None # cs2" by simp_all
    from Cons.IH[OF r] have ih: "heapPrefix h h2" "list_all (ownedCell (length h) h2) cs2"
      "list_all (ownedCell 0 h) cs \<longrightarrow> map (cellPiece h2) cs2 = map (cellPiece h) cs"
      by simp_all
    have "cellPiece h2 None = cellPiece h c" using None by (simp add: cellPiece_def)
    with ih eq show ?thesis by (simp add: ownedCell_None)
  next
    case (Some p)
    define h1 where "h1 = h @ [PieceObj p]"
    define a where "a = length h"
    have al: "alloc h (PieceObj p) = (h1, a)" by (simp add: alloc_def h1_def a_def)
    obtain h2 cs2 where r: "copyCells h1 cs = (h2, cs2)" by (cases "copyCells h1 cs")
    with Cons.prems Some al have eq: "h' = h2" "cs' = Some a # cs2" by simp_all
    from Cons.IH[OF r] have ih: "heapPrefix h1 h2" "list_all (ownedCell (length h1) h2) cs2"
      "list_all (ownedCell 0 h1) cs \<longrightarrow> map (cellPiece h2) cs2 = map (cellPiece h1) cs"
      by simp_all
    have p01: "heapPrefix h h1" using al by (rule heapPrefix_alloc)
    from p01 ih(1) have p02: "heapPrefix h h2" by (rule heapPrefix_trans)
    have a1: "pieceOf h1 a = Some p" by (simp add: pieceOf_def heapAt_def h1_def a_def)
    have alt: "a < length h1" by (simp add: h1_def a_def)
    from pieceOf_prefix[OF ih(1) alt] a1 have a2: "pieceOf h2 a = Some p" by simp
    have own_a: "ownedCell (length h) h2 (Some a)" using a2 by (simp add: ownedCell_Some a_def)
    have own_rest: "list_all (ownedCell (length h) h2) cs2"
      using ih(2) by (auto simp: list_all_iff h1_def intro: ownedCell_mono[of "length h" "Suc (length h)"])
    have content: "map (cellPiece h2) (Some a # cs2) = map (cellPiece h) (c # cs)"
      if typed: "list_all (ownedCell 0 h) (c # cs)"
    proof -
      from typed have t1: "list_all (ownedCell 0 h1) cs"
        by (auto simp: list_all_iff intro: ownedCell_prefix[OF p01])
      with ih(3) have "map (cellPiece h2) cs2 = map (cellPiece h1) cs" by simp
      also have "\<dots> = map (cellPiece h) cs"
        using typed by (auto simp: list_all_iff intro: cellPiece_prefix[OF p01])
      finally have "map (cellPiece h2) cs2 = map (cellPiece h) cs" .
      moreover have "cellPiece h2 (Some a) = cellPiece h c" using a2 Some by (simp add: cellPiece_def)
      ultimately show ?thesis by simp
    qed
    from p02 own_a own_rest content eq show ?thesis by simp
  qed
qed

lemma ownedRow_mono: "m \<le> n \<Longrightarrow> ownedRow n h r \<Longrightarrow> ownedRow m h r"
  by (auto simp: ownedRow_def list_all_iff intro: ownedCell_mono)

lemma rowPieces_prefix:
  assumes "heapPrefix h h'" "ownedRow 0 h r"
  shows "rowPieces h' r = rowPieces h r"
proof -
  from assms(2) have lt: "r < length h" and cells: "list_all (ownedCell 0 h) (cellsOf h r)"
    by (simp_all add: ownedRow_def isRow_lt)
  from cells have "map (cellPiece h') (cellsOf h r) = map (cellPiece h) (cellsOf h r)"
    by (auto simp: list_all_iff intro: cellPiece_prefix[OF assms(1)])
  with cellsOf_prefix[OF assms(1) lt] show ?thesis by (simp add: rowPieces_def)
qed

lemma copyRows_spec:
  "copyRows h rs = (h', rs') \<Longrightarrow>
   heapPrefix h h' \<and> list_all (ownedRow (length h) h') rs' \<and>
   (list_all (ownedRow 0 h) rs \<longrightarrow> map (rowPieces h') rs' = map (rowPieces h) rs)"
proof (induction rs arbitrary: h h' rs')
  case Nil
  then show ?case by (simp add: heapPrefix_refl)
next
  case (Cons r rs)
  obtain h1 cs' where c: "copyCells h (cellsOf h r) = (h1, cs')"
    by (cases "copyCells h (cellsOf h r)")
  define h2 where "h2 = h1 @ [RowObj cs']"
  define r' where "r' = length h1"
  have al: "alloc h1 (RowObj cs') = (h2, r')" by (simp add: alloc_def h2_def r'_def)
  obtain h3 rs2 where rr: "copyRows h2 rs = (h3, rs2)" by (cases "copyRows h2 rs")
  from Cons.prems c al rr have eq: "h' = h3" "rs' = r' # rs2" by simp_all
  from copyCells_spec[OF c] have cs: "heapPrefix h h1"
    "list_all (ownedCell (length h) h1) cs'"
    "list_all (ownedCell 0 h) (cellsOf h r) \<longrightarrow> map (cellPiece h1) cs' = map (cellPiece h) (cellsOf h r)"
    by simp_all
  from Cons.IH[OF rr] have ih: "heapPrefix h2 h3" "list_all (ownedRow (length h2) h3) rs2"
    "list_all (ownedRow 0 h2) rs \<longrightarrow> map (rowPieces h3) rs2 = map (rowPieces h2) rs"
    by simp_all
  have p12: "heapPrefix h1 h2" using al by (rule heapPrefix_alloc)
  from p12 ih(1) have p13: "heapPrefix h1 h3" by (rule heapPrefix_trans)
  from cs(1) p12 have p02: "heapPrefix h h2" by (rule heapPrefix_trans)
  from p02 ih(1) have p03: "heapPrefix h h3" by (rule heapPrefix_trans)
  have r'lt: "r' < length h2" by (simp add: h2_def r'_def)
  have le: "length h \<le> r'" using cs(1) by (simp add: r'_def heapPrefix_length)
  have row2: "isRow h2 r'" "cellsOf h2 r' = cs'"
    by (simp_all add: isRow_def cellsOf_def heapAt_def h2_def r'_def)
  with isRow_prefix[OF ih(1) r'lt] cellsOf_prefix[OF ih(1) r'lt]
  have row3: "isRow h3 r'" "cellsOf h3 r' = cs'" by simp_all
  have cells3: "list_all (ownedCell (length h) h3) cs'"
    using cs(2) by (auto simp: list_all_iff intro: ownedCell_prefix[OF p13])
  have own_r: "ownedRow (length h) h3 r'"
    using le row3 cells3 by (simp add: ownedRow_def)
  have "length h \<le> length h2" using p02 by (rule heapPrefix_length)
  with ih(2) have own_rest: "list_all (ownedRow (length h) h3) rs2"
    by (auto simp: list_all_iff intro: ownedRow_mono)
  have content: "map (rowPieces h3) (r' # rs2) = map (rowPieces h) (r # rs)"
    if typed: "list_all (ownedRow 0 h) (r # rs)"
  proof -
    from typed have tr: "ownedRow 0 h r" and trs: "list_all (ownedRow 0 h) rs" by simp_all
    from tr have "list_all (ownedCell 0 h) (cellsOf h r)" by (simp add: ownedRow_def)
    with cs(3) have c1: "map (cellPiece h1) cs' = map (cellPiece h) (cellsOf h r)" by simp
    from cs(2) have "list_all (ownedCell 0 h1) cs'"
      by (auto simp: list_all_iff intro: ownedCell_mono[of 0 "length h"])
    then have "map (cellPiece h3) cs' = map (cellPiece h1) cs'"
      by (auto simp: list_all_iff intro: cellPiece_prefix[OF p13])
    with c1 row3 have first: "rowPieces h3 r' = rowPieces h r" by (simp add: rowPieces_def)
    from trs have "list_all (ownedRow 0 h2) rs"
      by (auto simp: list_all_iff intro: ownedRow_prefix[OF p02])
    with ih(3) have "map (rowPieces h3) rs2 = map (rowPieces h2) rs" by simp
    also have "\<dots> = map (rowPieces h) rs"
      using trs by (auto simp: list_all_iff intro: rowPieces_prefix[OF p02])
    finally show ?thesis using first by simp
  qed
  from p03 own_r own_rest content eq show ?case by simp
qed

lemma copyBoard_spec:
  assumes "copyBoard h b = (h', nb)"
  shows "heapPrefix h h' \<and> ownedBoard (length h) h' nb \<and>
         (ownedBoard 0 h b \<longrightarrow> readBoard h' nb = readBoard h b)"
proof -
  obtain h1 rs' where rr: "copyRows h (rowsOf h b) = (h1, rs')"
    by (cases "copyRows h (rowsOf h b)")
  with assms have eq: "h' = h1 @ [GridObj rs']" "nb = length h1"
    by (simp_all add: copyBoard_def alloc_def)
  from copyRows_spec[OF rr] have sp: "heapPrefix h h1" "list_all (ownedRow (length h) h1) rs'"
    "list_all (ownedRow 0 h) (rowsOf h b) \<longrightarrow> map (rowPieces h1) rs' = map (rowPieces h) (rowsOf h b)"
    by simp_all
  have p1: "heapPrefix h1 h'" by (simp add: eq heapPrefix_def)
  from sp(1) p1 have p0: "heapPrefix h h'" by (rule heapPrefix_trans)
  have grid: "isGrid h' nb" "rowsOf h' nb = rs'"
    by (simp_all add: isGrid_def rowsOf_def heapAt_def eq)
  have le: "length h \<le> nb" using sp(1) by (simp add: eq heapPrefix_length)
  have rows: "list_all (ownedRow (length h) h') rs'"
    using sp(2) by (auto simp: list_all_iff intro: ownedRow_prefix[OF p1])
  have own: "ownedBoard (length h) h' nb" using le grid rows by (simp add: ownedBoard_def)
  have content: "readBoard h' nb = readBoard h b" if "ownedBoard 0 h b"
  proof -
    from that have t: "list_all (ownedRow 0 h) (rowsOf h b)" by (simp add: ownedBoard_def)
    with sp(3) have "map (rowPieces h1) rs' = map (rowPieces h) (rowsOf h b)" by simp
    moreover from sp(2) have "list_all (ownedRow 0 h1) rs'"
      by (auto simp: list_all_iff intro: ownedRow_mono[of 0 "length h"])
    then have "map (rowPieces h') rs' = map (rowPieces h1) rs'"
      by (auto simp: list_all_iff intro: rowPieces_prefix[OF p1])
    ultimately show ?thesis by (simp add: readBoard_def grid)
  qed
  from p0 own content show ?thesis by simp
qed

lemma sameBelow_refl: "sameBelow n h h"
  by (simp add: sameBelow_def)

lemma sameBelow_trans: "sameBelow n h h1 \<Longrightarrow> sameBelow n h1 h2 \<Longrightarrow> sameBelow n h h2"
  by (simp add: sameBelow_def)

lemma sameBelow_update: "n \<le> a \<Longrightarrow> sameBelow n h (h[a := obj])"
  by (simp add: sameBelow_def)

lemma heapPrefix_sameBelow:
  assumes "heapPrefix h h1" "sameBelow (length h) h1 h2"
  shows "heapPrefix h h2"
proof -
  from assms have len: "length h \<le> length h2" by (simp add: heapPrefix_def sameBelow_def)
  have "take (length h) h2 ! i = h ! i" if i: "i < length h" for i
  proof -
    from i assms(2) have "h2 ! i = h1 ! i" by (simp add: sameBelow_def)
    moreover from i have "take (length h) h1 ! i = h1 ! i" by simp
    moreover from assms(1) have "take (length h) h1 = h" by (simp add: heapPrefix_def)
    ultimately show ?thesis using i by simp
  qed
  with len have "take (length h) h2 = h" by (intro nth_equalityI) simp_all
  with len show ?thesis by (simp add: heapPrefix_def)
qed

text \<open>Overwriting a row object with a row object.\<close>

lemma update_row:
  assumes "isRow h ra"
  shows "isRow (h[ra := RowObj x]) = isRow h" "isGrid (h[ra := RowObj x]) = isGrid h"
    "pieceOf (h[ra := RowObj x]) = pieceOf h" "rowsOf (h[ra := RowObj x]) = rowsOf h"
    "cellsOf (h[ra := RowObj x]) r = (if r = ra then x else cellsOf h r)"
proof -
  from assms have lt: "ra < length h" by (rule isRow_lt)
  have at: "heapAt (h[ra := RowObj x]) a = (if a = ra then Some (RowObj x) else heapAt h a)" for a
    using lt by (simp add: heapAt_def nth_list_update)
  from assms obtain cs where old: "heapAt h ra = Some (RowObj cs)"
    by (auto simp: isRow_def split: option.splits object.splits)
  show "isRow (h[ra := RowObj x]) = isRow h"
    by (rule ext) (simp add: isRow_def at old)
  show "isGrid (h[ra := RowObj x]) = isGrid h"
    by (rule ext) (simp add: isGrid_def at old)
  show "pieceOf (h[ra := RowObj x]) = pieceOf h"
    by (rule ext) (simp add: pieceOf_def at old)
  show "rowsOf (h[ra := RowObj x]) = rowsOf h"
    by (rule ext) (simp add: rowsOf_def at old)
  show "cellsOf (h[ra := RowObj x]) r = (if r = ra then x else cellsOf h r)"
    by (simp add: cellsOf_def at)
qed

text \<open>Overwriting a piece object with a piece object.\<close>

lemma update_piece:
  assumes "pieceOf h pa = Some p"
  shows "isRow (h[pa := PieceObj q]) = isRow h" "isGrid (h[pa := PieceObj q]) = isGrid h"
    "rowsOf (h[pa := PieceObj q]) = rowsOf h" "cellsOf (h[pa := PieceObj q]) = cellsOf h"
    "pieceOf (h[pa := PieceObj q]) a = (if a = pa then Some q else pieceOf h a)"
proof -
  from assms have lt: "pa < length h" by (rule pieceOf_Some_lt)
  have at: "heapAt (h[pa := PieceObj q]) a = (if a = pa then Some (PieceObj q) else heapAt h a)" for a
    using lt by (simp add: heapAt_def nth_list_update)
  from assms have old: "heapAt h pa = Some (PieceObj p)"
    by (auto simp: pieceOf_def split: option.splits object.splits)
  show "isRow (h[pa := PieceObj q]) = isRow h"
    by (rule ext) (simp add: isRow_def at old)
  show "isGrid (h[pa := PieceObj q]) = isGrid h"
    by (rule ext) (simp add: isGrid_def at old)
  show "rowsOf (h[pa := PieceObj q]) = rowsOf h"
    by (rule ext) (simp add: rowsOf_def at old)
  show "cellsOf (h[pa := PieceObj q]) = cellsOf h"
    by (rule ext) (simp add: cellsOf_def at old)
  show "pieceOf (h[pa := PieceObj q]) a = (if a = pa then Some q else pieceOf h a)"
    by (simp add: pieceOf_def at)
qed

lemma ownedBoard_row:
  "ownedBoard n h nb \<Longrightarrow> i < length (rowsOf h nb) \<Longrightarrow> ownedRow n h (rowsOf h nb ! i)"
  by (simp add: ownedBoard_def list_all_length)

lemma writeCell_cases:
  "writeCell h nb r c v = h \<or>
   (\<exists>ra cs. 0 \<le> r \<and> 0 \<le> c \<and> nat r < length (rowsOf h nb) \<and> ra = rowsOf h nb ! nat r \<and>
      heapAt h ra = Some (RowObj cs) \<and> writeCell h nb r c v = h[ra := RowObj (cs[nat c := v])])"
  by (auto simp: writeCell_def Let_def split: option.splits object.splits)

lemma writeCell_owned:
  assumes own: "ownedBoard n h nb" and v: "ownedCell n h v"
  shows "sameBelow n h (writeCell h nb r c v) \<and> ownedBoard n (writeCell h nb r c v) nb"
proof -
  from writeCell_cases[of h nb r c v] show ?thesis
  proof (elim disjE exE conjE)
    assume "writeCell h nb r c v = h"
    with own show ?thesis by (simp add: sameBelow_refl)
  next
    fix ra cs
    assume i: "nat r < length (rowsOf h nb)" and ra: "ra = rowsOf h nb ! nat r"
      and at: "heapAt h ra = Some (RowObj cs)"
      and w: "writeCell h nb r c v = h[ra := RowObj (cs[nat c := v])]"
    let ?h' = "h[ra := RowObj (cs[nat c := v])]"
    from ownedBoard_row[OF own i] ra have orow: "ownedRow n h ra" by simp
    then have le: "n \<le> ra" and isr: "isRow h ra" by (simp_all add: ownedRow_def)
    from at have cells: "cellsOf h ra = cs" by (simp add: cellsOf_def)
    note up = update_row[OF isr, of "cs[nat c := v]"]
    have oc: "ownedCell n ?h' = ownedCell n h"
      by (rule ext) (simp add: ownedCell_def up split: option.splits)
    have "ownedRow n ?h' r'" if o: "ownedRow n h r'" for r'
    proof (cases "r' = ra")
      case True
      from orow have "list_all (ownedCell n h) cs" by (simp add: ownedRow_def cells)
      with v have "list_all (ownedCell n h) (cs[nat c := v])"
        by (auto simp: list_all_iff dest!: set_update_subset_insert[THEN subsetD])
      with True le isr show ?thesis by (simp add: ownedRow_def up oc)
    next
      case False
      with o show ?thesis by (simp add: ownedRow_def up oc)
    qed
    with own have "ownedBoard n ?h' nb"
      by (auto simp: ownedBoard_def up list_all_iff)
    with w le show ?thesis by (simp add: sameBelow_update)
  qed
qed

lemma promoteObj_owned:
  assumes own: "ownedBoard n h nb" and pa: "n \<le> pa" and pr: "promoteObj h pa m = (h', promoted)"
  shows "sameBelow n h h' \<and> ownedBoard n h' nb"
proof (cases "pieceOf h pa")
  case None
  with pr own show ?thesis by (simp add: promoteObj_def sameBelow_refl)
next
  case (Some p)
  show ?thesis
  proof (cases "promotes p m")
    case False
    with pr own Some show ?thesis by (simp add: promoteObj_def sameBelow_refl)
  next
    case True
    with pr Some have h': "h' = h[pa := PieceObj (p\<lparr>type := King\<rparr>)]"
      by (simp add: promoteObj_def)
    note up = update_piece[OF Some, of "p\<lparr>type := King\<rparr>"]
    have oc: "ownedCell n h' c" if "ownedCell n h c" for c
      using that by (cases c) (auto simp: ownedCell_def h' up)
    have "ownedRow n h' r" if "ownedRow n h r" for r
      using that oc by (auto simp: ownedRow_def h' up list_all_iff)
    with own have "ownedBoard n h' nb"
      by (auto simp: ownedBoard_def h' up list_all_iff)
    with pa show ?thesis by (simp add: h' sameBelow_update)
  qed
qed

lemma readCell_owned:
  assumes own: "ownedBoard n h nb" and rc: "readCell h nb r c = Some pa"
  shows "ownedCell n h (Some pa)"
proof -
  from rc have i: "nat r < length (rowsOf h nb)"
    and j: "nat c < length (cellsOf h (rowsOf h nb ! nat r))"
    and v: "cellsOf h (rowsOf h nb ! nat r) ! nat c = Some pa"
    by (simp_all add: readCell_def split: if_splits)
  from ownedBoard_row[OF own i] have "list_all (ownedCell n h) (cellsOf h (rowsOf h nb ! nat r))"
    by (simp add: ownedRow_def)
  with j v show ?thesis by (auto simp: list_all_length)
qed

lemma readBoard_prefix:
  assumes "heapPrefix h h'" "ownedBoard 0 h b"
  shows "readBoard h' b = readBoard h b"
proof -
  from assms(2) have lt: "b < length h" and rows: "list_all (ownedRow 0 h) (rowsOf h b)"
    by (simp_all add: ownedBoard_def isGrid_lt)
  from rows have "map (rowPieces h') (rowsOf h b) = map (rowPieces h) (rowsOf h b)"
    by (auto simp: list_all_iff intro: rowPieces_prefix[OF assms(1)])
  with rowsOf_prefix[OF assms(1) lt] show ?thesis by (simp add: readBoard_def)
qed

lemma boardAt_readBoard:
  "boardAt (readBoard h b) r c = cellPiece h (readCell h b r c)"
  by (auto simp: boardAt_def inBoard_def readBoard_def rowPieces_def readCell_def cellPiece_def)


lemma writes_frame:
  assumes o1: "ownedBoard n h1 nb"
    and rc: "readCell h1 nb (row (moveFrom m)) (col (moveFrom m)) = Some pa"
  defines "h2 \<equiv> writeCell h1 nb (row (moveTo m)) (col (moveTo m)) (Some pa)"
  defines "h3 \<equiv> writeCell h2 nb (row (moveFrom m)) (col (moveFrom m)) None"
  defines "h4 \<equiv> (if isCapture m then
                    (case capturedPiece m of None \<Rightarrow> h3
                     | Some cp \<Rightarrow> writeCell h3 nb (row cp) (col cp) None)
                  else h3)"
  shows "sameBelow n h1 (fst (promoteObj h4 pa m)) \<and>
         ownedBoard n (fst (promoteObj h4 pa m)) nb"
proof -
  from readCell_owned[OF o1 rc] have opa: "ownedCell n h1 (Some pa)" .
  then have pale: "n \<le> pa" by (simp add: ownedCell_Some)
  obtain h5 promoted where pr: "promoteObj h4 pa m = (h5, promoted)"
    by (cases "promoteObj h4 pa m")
  from writeCell_owned[OF o1 opa] have s2: "sameBelow n h1 h2" and o2: "ownedBoard n h2 nb"
    unfolding h2_def by simp_all
  from writeCell_owned[OF o2 ownedCell_None] have s3: "sameBelow n h2 h3"
    and o3: "ownedBoard n h3 nb"
    unfolding h3_def by simp_all
  have s4: "sameBelow n h3 h4" and o4: "ownedBoard n h4 nb"
    using writeCell_owned[OF o3 ownedCell_None] o3
    unfolding h4_def by (auto simp: sameBelow_refl split: option.splits)
  from promoteObj_owned[OF o4 pale pr] have s5: "sameBelow n h4 h5"
    and o5: "ownedBoard n h5 nb" by simp_all
  from s2 s3 s4 s5 have "sameBelow n h1 h5" by (blast intro: sameBelow_trans)
  with o5 pr show ?thesis by simp
qed

text \<open>
  Whatever the move, \<open>executeMove\<close> leaves every object that existed before the call
  as it was.
\<close>

lemma executeMoveH_frame:
  assumes typed: "ownedBoard 0 h cb"
  shows "heapPrefix h (fst (executeMoveH h cb m))"
proof -
  let ?fr = "row (moveFrom m)" and ?fc = "col (moveFrom m)"
  obtain h1 nb where cp: "copyBoard h cb = (h1, nb)" by (cases "copyBoard h cb")
  from copyBoard_spec[OF cp] have p1: "heapPrefix h h1" and o1: "ownedBoard (length h) h1 nb"
    by simp_all
  show ?thesis
  proof (cases "readCell h1 nb ?fr ?fc")
    case None
    then have "fst (executeMoveH h cb m) = h1" by (simp add: executeMoveH_def cp)
    with p1 show ?thesis by simp
  next
    case (Some pa)
    define h2 where "h2 = writeCell h1 nb (row (moveTo m)) (col (moveTo m)) (Some pa)"
    define h3 where "h3 = writeCell h2 nb ?fr ?fc None"
    define h4 where "h4 = (if isCapture m then
                    (case capturedPiece m of None \<Rightarrow> h3
                     | Some cp \<Rightarrow> writeCell h3 nb (row cp) (col cp) None)
                  else h3)"
    have w: "sameBelow (length h) h1 (fst (promoteObj h4 pa m))"
      unfolding h4_def h3_def h2_def using writes_frame[OF o1 Some] by (rule conjunct1)
    have "fst (executeMoveH h cb m) = h1 \<or> fst (executeMoveH h cb m) = fst (promoteObj h4 pa m)"
      unfolding executeMoveH_def h4_def h3_def h2_def using Some
      by (cases "isCapture m"; cases "capturedPiece m")
         (simp_all add: cp Let_def split_beta)
    then show ?thesis
    proof
      assume "fst (executeMoveH h cb m) = h1"
      with p1 show ?thesis by simp
    next
      assume "fst (executeMoveH h cb m) = fst (promoteObj h4 pa m)"
      with heapPrefix_sameBelow[OF p1 w] show ?thesis by simp
    qed
  qed
qed


subsection \<open>The copy shares no object\<close>

lemma somes_Nil [simp]: "somes [] = []"
  by (simp add: somes_def)

lemma somes_Cons_None [simp]: "somes (None # cs) = somes cs"
  by (simp add: somes_def)

lemma somes_Cons_Some [simp]: "somes (Some a # cs) = a # somes cs"
  by (simp add: somes_def)

lemma set_somes: "set (somes cs) = {a. Some a \<in> set cs}"
proof (induction cs)
  case Nil
  then show ?case by simp
next
  case (Cons c cs)
  then show ?case by (cases c) auto
qed

lemma somes_unique:
  assumes "distinct (somes cs)" "j < length cs" "j' < length cs"
    "cs ! j = Some a" "cs ! j' = Some a"
  shows "j = j'"
  using assms
proof (induction cs arbitrary: j j')
  case Nil
  then show ?case by simp
next
  case (Cons c cs)
  show ?case
  proof (cases j)
    case 0
    note j0 = this
    show ?thesis
    proof (cases j')
      case 0
      with j0 show ?thesis by simp
    next
      case (Suc k')
      with Cons.prems j0 have "c = Some a" "cs ! k' = Some a" "k' < length cs" by simp_all
      then have "a \<in> set (somes cs)" by (auto simp: set_somes in_set_conv_nth)
      with Cons.prems(1) \<open>c = Some a\<close> show ?thesis by simp
    qed
  next
    case (Suc k)
    note jk = this
    show ?thesis
    proof (cases j')
      case 0
      with Cons.prems jk have "c = Some a" "cs ! k = Some a" "k < length cs" by simp_all
      then have "a \<in> set (somes cs)" by (auto simp: set_somes in_set_conv_nth)
      with Cons.prems(1) \<open>c = Some a\<close> show ?thesis by simp
    next
      case (Suc k')
      from Cons.prems(1) have d: "distinct (somes cs)" by (cases c) simp_all
      from Cons.prems jk Suc have "k < length cs" "k' < length cs" "cs ! k = Some a"
        "cs ! k' = Some a" by simp_all
      from Cons.IH[OF d this] jk Suc show ?thesis by simp
    qed
  qed
qed

lemma concat_unique:
  assumes "distinct (concat xss)" "i < length xss" "i' < length xss"
    "a \<in> set (xss ! i)" "a \<in> set (xss ! i')"
  shows "i = i'"
  using assms
proof (induction xss arbitrary: i i')
  case Nil
  then show ?case by simp
next
  case (Cons xs xss)
  from Cons.prems(1) have d: "distinct (concat xss)"
    and dj: "set xs \<inter> set (concat xss) = {}" by simp_all
  show ?case
  proof (cases i)
    case 0
    note i0 = this
    show ?thesis
    proof (cases i')
      case 0
      with i0 show ?thesis by simp
    next
      case (Suc k')
      with Cons.prems i0 have "a \<in> set xs" "a \<in> set (xss ! k')" "k' < length xss" by simp_all
      then have "a \<in> set xs \<inter> set (concat xss)" by auto
      with dj show ?thesis by simp
    qed
  next
    case (Suc k)
    note ik = this
    show ?thesis
    proof (cases i')
      case 0
      with Cons.prems ik have "a \<in> set xs" "a \<in> set (xss ! k)" "k < length xss" by simp_all
      then have "a \<in> set xs \<inter> set (concat xss)" by auto
      with dj show ?thesis by simp
    next
      case (Suc k')
      from Cons.prems ik Suc have "k < length xss" "k' < length xss" "a \<in> set (xss ! k)"
        "a \<in> set (xss ! k')" by simp_all
      from Cons.IH[OF d this] ik Suc show ?thesis by simp
    qed
  qed
qed

text \<open>In a separated board a piece object is referred to from one square only.\<close>

lemma separated_unique:
  assumes sep: "separated h b"
    and i: "i < length (rowsOf h b)" and i': "i' < length (rowsOf h b)"
    and j: "j < length (cellsOf h (rowsOf h b ! i))"
    and j': "j' < length (cellsOf h (rowsOf h b ! i'))"
    and a: "cellsOf h (rowsOf h b ! i) ! j = Some a"
    and a': "cellsOf h (rowsOf h b ! i') ! j' = Some a"
  shows "i = i' \<and> j = j'"
proof -
  let ?xss = "map (\<lambda>r. somes (cellsOf h r)) (rowsOf h b)"
  from sep have d: "distinct (concat ?xss)" by (simp add: separated_def)
  from j a have "a \<in> set (somes (cellsOf h (rowsOf h b ! i)))"
    by (auto simp: set_somes in_set_conv_nth)
  with i have m: "a \<in> set (?xss ! i)" by simp
  from j' a' have "a \<in> set (somes (cellsOf h (rowsOf h b ! i')))"
    by (auto simp: set_somes in_set_conv_nth)
  with i' have m': "a \<in> set (?xss ! i')" by simp
  from concat_unique[OF d _ _ m m'] i i' have ii: "i = i'" by simp
  from d have "distinct (?xss ! i)" using i
    by (metis distinct_concat_iff length_map nth_mem)
  with i have "distinct (somes (cellsOf h (rowsOf h b ! i)))" by simp
  from somes_unique[OF this j _ a] j' a' ii have "j = j'" by simp
  with ii show ?thesis by simp
qed

lemma copyCells_fresh:
  "copyCells h cs = (h', cs') \<Longrightarrow>
   distinct (somes cs') \<and> set (somes cs') \<subseteq> {length h..<length h'}"
proof (induction cs arbitrary: h h' cs')
  case Nil
  then show ?case by simp
next
  case (Cons c cs)
  show ?case
  proof (cases "cellPiece h c")
    case None
    obtain h2 cs2 where r: "copyCells h cs = (h2, cs2)" by (cases "copyCells h cs")
    with Cons.prems None have eq: "h' = h2" "cs' = None # cs2" by simp_all
    from Cons.IH[OF r] eq show ?thesis by simp
  next
    case (Some p)
    define h1 where "h1 = h @ [PieceObj p]"
    define a where "a = length h"
    have al: "alloc h (PieceObj p) = (h1, a)" by (simp add: alloc_def h1_def a_def)
    obtain h2 cs2 where r: "copyCells h1 cs = (h2, cs2)" by (cases "copyCells h1 cs")
    with Cons.prems Some al have eq: "h' = h2" "cs' = Some a # cs2" by simp_all
    from Cons.IH[OF r] have ih: "distinct (somes cs2)"
      "set (somes cs2) \<subseteq> {length h1..<length h2}" by simp_all
    from copyCells_spec[OF r] have "length h1 \<le> length h2" by (simp add: heapPrefix_length)
    then have lt: "a < length h2" by (simp add: h1_def a_def)
    from ih(2) have "a \<notin> set (somes cs2)" by (auto simp: h1_def a_def)
    moreover from ih(2) have "set (somes cs2) \<subseteq> {length h..<length h2}"
      by (auto simp: h1_def)
    ultimately show ?thesis using ih(1) lt eq by (simp add: a_def)
  qed
qed

lemma copyRows_fresh:
  "copyRows h rs = (h', rs') \<Longrightarrow>
   distinct rs' \<and> set rs' \<subseteq> {length h..<length h'} \<and>
   distinct (concat (map (\<lambda>r. somes (cellsOf h' r)) rs')) \<and>
   set (concat (map (\<lambda>r. somes (cellsOf h' r)) rs')) \<subseteq> {length h..<length h'}"
proof (induction rs arbitrary: h h' rs')
  case Nil
  then show ?case by simp
next
  case (Cons r rs)
  obtain h1 cs' where c: "copyCells h (cellsOf h r) = (h1, cs')"
    by (cases "copyCells h (cellsOf h r)")
  define h2 where "h2 = h1 @ [RowObj cs']"
  define r' where "r' = length h1"
  have al: "alloc h1 (RowObj cs') = (h2, r')" by (simp add: alloc_def h2_def r'_def)
  obtain h3 rs2 where rr: "copyRows h2 rs = (h3, rs2)" by (cases "copyRows h2 rs")
  from Cons.prems c al rr have eq: "h' = h3" "rs' = r' # rs2" by simp_all
  from copyCells_fresh[OF c] have cf: "distinct (somes cs')"
    "set (somes cs') \<subseteq> {length h..<length h1}" by simp_all
  from copyCells_spec[OF c] have l01: "length h \<le> length h1" by (simp add: heapPrefix_length)
  from copyRows_spec[OF rr] have p23: "heapPrefix h2 h3" by simp
  then have l23: "length h2 \<le> length h3" by (rule heapPrefix_length)
  have l12: "length h2 = Suc (length h1)" by (simp add: h2_def)
  from Cons.IH[OF rr] have ih: "distinct rs2" "set rs2 \<subseteq> {length h2..<length h3}"
    "distinct (concat (map (\<lambda>r. somes (cellsOf h3 r)) rs2))"
    "set (concat (map (\<lambda>r. somes (cellsOf h3 r)) rs2)) \<subseteq> {length h2..<length h3}"
    by simp_all
  have r'lt: "r' < length h2" by (simp add: h2_def r'_def)
  have "cellsOf h2 r' = cs'" by (simp add: cellsOf_def heapAt_def h2_def r'_def)
  with cellsOf_prefix[OF p23 r'lt] have cells3: "cellsOf h3 r' = cs'" by simp
  have d1: "distinct (r' # rs2)" using ih(1,2) l12 by (auto simp: r'_def)
  have s1: "set (r' # rs2) \<subseteq> {length h..<length h3}"
    using ih(2) l01 l12 l23 by (auto simp: r'_def)
  have dj: "set (somes cs') \<inter> set (concat (map (\<lambda>r. somes (cellsOf h3 r)) rs2)) = {}"
  proof -
    have "\<And>x. x \<in> set (somes cs') \<Longrightarrow> x < length h1" using cf(2) by auto
    moreover have "\<And>x. x \<in> set (concat (map (\<lambda>r. somes (cellsOf h3 r)) rs2)) \<Longrightarrow>
        length h2 \<le> x" using ih(4) by auto
    ultimately show ?thesis using l12 by fastforce
  qed
  have d2: "distinct (concat (map (\<lambda>r. somes (cellsOf h3 r)) (r' # rs2)))"
    using cf(1) ih(3) dj by (simp add: cells3)
  have s2: "set (concat (map (\<lambda>r. somes (cellsOf h3 r)) (r' # rs2))) \<subseteq> {length h..<length h3}"
  proof -
    have "set (somes cs') \<subseteq> {length h..<length h3}" using cf(2) l12 l23 by auto
    moreover have "set (concat (map (\<lambda>r. somes (cellsOf h3 r)) rs2)) \<subseteq> {length h..<length h3}"
      using ih(4) l01 l12 by auto
    ultimately show ?thesis by (simp add: cells3)
  qed
  from d1 s1 d2 s2 eq show ?case by simp
qed

lemma copyBoard_separated:
  assumes "copyBoard h b = (h', nb)"
  shows "separated h' nb"
proof -
  obtain h1 rs' where rr: "copyRows h (rowsOf h b) = (h1, rs')"
    by (cases "copyRows h (rowsOf h b)")
  with assms have eq: "h' = h1 @ [GridObj rs']" "nb = length h1"
    by (simp_all add: copyBoard_def alloc_def)
  from copyRows_fresh[OF rr] have f: "distinct rs'" "set rs' \<subseteq> {length h..<length h1}"
    "distinct (concat (map (\<lambda>r. somes (cellsOf h1 r)) rs'))" by simp_all
  have p1: "heapPrefix h1 h'" by (simp add: eq heapPrefix_def)
  have rows: "rowsOf h' nb = rs'" by (simp add: rowsOf_def heapAt_def eq)
  have meq: "map (\<lambda>r. somes (cellsOf h' r)) rs' = map (\<lambda>r. somes (cellsOf h1 r)) rs'"
  proof (rule map_cong[OF refl])
    fix r assume "r \<in> set rs'"
    with f(2) have "r < length h1" by auto
    from cellsOf_prefix[OF p1 this] show "somes (cellsOf h' r) = somes (cellsOf h1 r)" by simp
  qed
  from f(1,3) show ?thesis unfolding separated_def rows meq by (rule conjI)
qed

subsection \<open>The contents of the returned board\<close>

lemma length_boardSet: "length (boardSet b r c v) = length b"
  by (simp add: boardSet_def)

lemma length_boardSet_row: "length (boardSet b r c v ! i) = length (b ! i)"
proof (cases "0 \<le> r \<and> 0 \<le> c")
  case False
  then show ?thesis by (auto simp: boardSet_def)
next
  case True
  show ?thesis
  proof (cases "nat r < length b")
    case False
    with True show ?thesis by (simp add: boardSet_def list_update_beyond)
  next
    case lt: True
    with True show ?thesis by (cases "i = nat r") (simp_all add: boardSet_def)
  qed
qed

lemma board_ext:
  assumes len: "length b = length b'"
    and rows: "\<And>i. i < length b \<Longrightarrow> length (b ! i) = length (b' ! i)"
    and at: "\<And>r c. boardAt b r c = boardAt b' r c"
  shows "b = b'"
proof (rule nth_equalityI[OF len])
  fix i assume i: "i < length b"
  show "b ! i = b' ! i"
  proof (rule nth_equalityI[OF rows[OF i]])
    fix j assume j: "j < length (b ! i)"
    from i j have in1: "inBoard b (int i) (int j)" by (simp add: inBoard_def)
    from i j len rows[OF i] have in2: "inBoard b' (int i) (int j)" by (simp add: inBoard_def)
    from at[of "int i" "int j"] in1 in2 show "b ! i ! j = b' ! i ! j"
      by (simp add: boardAt_def)
  qed
qed

text \<open>A write into a square that a later write overwrites has no effect.\<close>

lemma boardSet_absorb:
  "boardSet (boardSet (boardSet b fr fc x) tr tc y) fr fc z = boardSet (boardSet b tr tc y) fr fc z"
proof (rule board_ext)
  show "length (boardSet (boardSet (boardSet b fr fc x) tr tc y) fr fc z) =
        length (boardSet (boardSet b tr tc y) fr fc z)"
    by (simp add: length_boardSet)
next
  fix i
  show "length (boardSet (boardSet (boardSet b fr fc x) tr tc y) fr fc z ! i) =
        length (boardSet (boardSet b tr tc y) fr fc z ! i)"
    by (simp add: length_boardSet_row)
next
  fix r c
  show "boardAt (boardSet (boardSet (boardSet b fr fc x) tr tc y) fr fc z) r c =
        boardAt (boardSet (boardSet b tr tc y) fr fc z) r c"
    by (auto simp: boardAt_boardSet inBoard_boardSet)
qed

lemma boardSet_same:
  assumes "boardAt b r c = Some p"
  shows "boardSet b r c (Some p) = b"
proof (rule board_ext)
  show "length (boardSet b r c (Some p)) = length b" by (simp add: length_boardSet)
next
  fix i show "length (boardSet b r c (Some p) ! i) = length (b ! i)"
    by (simp add: length_boardSet_row)
next
  fix r' c'
  from assms show "boardAt (boardSet b r c (Some p)) r' c' = boardAt b r' c'"
    by (auto simp: boardAt_boardSet)
qed

text \<open>What the writes of \<open>executeMove\<close> leave as it was.\<close>

lemma writeCell_keeps:
  "rowsOf (writeCell h nb r c v) = rowsOf h \<and> isRow (writeCell h nb r c v) = isRow h \<and>
   pieceOf (writeCell h nb r c v) = pieceOf h"
proof -
  from writeCell_cases[of h nb r c v] show ?thesis
  proof (elim disjE exE conjE)
    assume "writeCell h nb r c v = h"
    then show ?thesis by simp
  next
    fix ra cs
    assume at: "heapAt h ra = Some (RowObj cs)"
      and w: "writeCell h nb r c v = h[ra := RowObj (cs[nat c := v])]"
    from at have "isRow h ra" by (simp add: isRow_def)
    from update_row[OF this, of "cs[nat c := v]"] w show ?thesis by simp
  qed
qed

lemma readBoard_writeCell:
  assumes rows: "list_all (isRow h) (rowsOf h nb)" and dist: "distinct (rowsOf h nb)"
  shows "readBoard (writeCell h nb r c v) nb = boardSet (readBoard h nb) r c (cellPiece h v)"
proof (cases "0 \<le> r \<and> 0 \<le> c \<and> nat r < length (rowsOf h nb)")
  case False
  then have w: "writeCell h nb r c v = h" by (auto simp: writeCell_def)
  from False have "boardSet (readBoard h nb) r c (cellPiece h v) = readBoard h nb"
    by (auto simp: boardSet_def readBoard_def list_update_beyond)
  with w show ?thesis by simp
next
  case True
  then have nn: "0 \<le> r" "0 \<le> c" and i: "nat r < length (rowsOf h nb)" by simp_all
  define ra where "ra = rowsOf h nb ! nat r"
  from rows i have isr: "isRow h ra" by (simp add: ra_def list_all_length)
  then obtain cs where at: "heapAt h ra = Some (RowObj cs)"
    by (auto simp: isRow_def split: option.splits object.splits)
  then have cells: "cellsOf h ra = cs" by (simp add: cellsOf_def)
  define h' where "h' = h[ra := RowObj (cs[nat c := v])]"
  from True at have w: "writeCell h nb r c v = h'"
    by (simp add: writeCell_def Let_def ra_def h'_def)
  note up = update_row[OF isr, of "cs[nat c := v]", folded h'_def]
  have cp: "cellPiece h' = cellPiece h"
    by (rule ext) (simp add: cellPiece_def up split: option.splits)
  have rp: "rowPieces h' x = (if x = ra then map (cellPiece h) (cs[nat c := v]) else rowPieces h x)"
    for x
    by (simp add: rowPieces_def cp up)
  have "map (rowPieces h') (rowsOf h nb) =
        (map (rowPieces h) (rowsOf h nb))[nat r := map (cellPiece h) (cs[nat c := v])]"
  proof (rule nth_equalityI)
    show "length (map (rowPieces h') (rowsOf h nb)) =
          length ((map (rowPieces h) (rowsOf h nb))[nat r := map (cellPiece h) (cs[nat c := v])])"
      by simp
  next
    fix k assume "k < length (map (rowPieces h') (rowsOf h nb))"
    then have k: "k < length (rowsOf h nb)" by simp
    from dist k i have eq: "(rowsOf h nb ! k = ra) = (k = nat r)"
      by (simp add: ra_def nth_eq_iff_index_eq)
    from k show "map (rowPieces h') (rowsOf h nb) ! k =
          (map (rowPieces h) (rowsOf h nb))[nat r := map (cellPiece h) (cs[nat c := v])] ! k"
      by (simp add: rp eq nth_list_update)
  qed
  moreover have "(map (rowPieces h) (rowsOf h nb) ! nat r)[nat c := cellPiece h v] =
                 map (cellPiece h) (cs[nat c := v])"
    using i by (simp add: rowPieces_def ra_def[symmetric] cells map_update)
  ultimately show ?thesis
    using nn by (simp add: w readBoard_def up boardSet_def)
qed

text \<open>
  Writing into the piece object behind a square of a separated board changes this
  square of the board and no other.
\<close>

lemma readBoard_update_piece:
  assumes pa: "pieceOf h pa = Some p" and sep: "separated h nb"
    and rc: "readCell h nb fr fc = Some pa"
  shows "readBoard (h[pa := PieceObj q]) nb = boardSet (readBoard h nb) fr fc (Some q)"
proof -
  define h' where "h' = h[pa := PieceObj q]"
  note up = update_piece[OF pa, of q, folded h'_def]
  from rc have nn: "0 \<le> fr" "0 \<le> fc" and i0: "nat fr < length (rowsOf h nb)"
    and j0: "nat fc < length (cellsOf h (rowsOf h nb ! nat fr))"
    and c0: "cellsOf h (rowsOf h nb ! nat fr) ! nat fc = Some pa"
    by (simp_all add: readCell_def split: if_splits)
  have "readBoard h' nb = boardSet (readBoard h nb) fr fc (Some q)"
  proof (rule board_ext)
    show "length (readBoard h' nb) = length (boardSet (readBoard h nb) fr fc (Some q))"
      by (simp add: length_boardSet readBoard_def up)
  next
    fix i assume "i < length (readBoard h' nb)"
    then have "i < length (rowsOf h nb)" by (simp add: readBoard_def up)
    then show "length (readBoard h' nb ! i) = length (boardSet (readBoard h nb) fr fc (Some q) ! i)"
      by (simp add: length_boardSet_row readBoard_def up rowPieces_def)
  next
    fix r c
    show "boardAt (readBoard h' nb) r c = boardAt (boardSet (readBoard h nb) fr fc (Some q)) r c"
    proof (cases "inBoard (readBoard h nb) r c")
      case False
      moreover have "inBoard (readBoard h' nb) r c = inBoard (readBoard h nb) r c"
        by (auto simp: inBoard_def readBoard_def rowPieces_def up)
      ultimately show ?thesis
        by (simp add: boardAt_def inBoard_boardSet)
    next
      case True
      then have rn: "0 \<le> r" "0 \<le> c" and i: "nat r < length (rowsOf h nb)"
        and j: "nat c < length (cellsOf h (rowsOf h nb ! nat r))"
        by (auto simp: inBoard_def readBoard_def rowPieces_def)
      from i0 j0 nn have in0: "inBoard (readBoard h nb) fr fc"
        by (simp add: inBoard_def readBoard_def rowPieces_def)
      have l: "boardAt (readBoard h' nb) r c = cellPiece h' (cellsOf h (rowsOf h nb ! nat r) ! nat c)"
        using rn i j by (simp add: boardAt_readBoard readCell_def up)
      have rr: "boardAt (readBoard h nb) r c = cellPiece h (cellsOf h (rowsOf h nb ! nat r) ! nat c)"
        using rn i j by (simp add: boardAt_readBoard readCell_def)
      show ?thesis
      proof (cases "r = fr \<and> c = fc")
        case True
        with c0 l in0 show ?thesis by (simp add: boardAt_boardSet cellPiece_def up)
      next
        case False
        have "cellsOf h (rowsOf h nb ! nat r) ! nat c \<noteq> Some pa"
        proof
          assume "cellsOf h (rowsOf h nb ! nat r) ! nat c = Some pa"
          from separated_unique[OF sep i i0 j j0 this c0] have "nat r = nat fr" "nat c = nat fc"
            by simp_all
          with rn nn have "r = fr" "c = fc" by linarith+
          with False show False by simp
        qed
        then have "cellPiece h' (cellsOf h (rowsOf h nb ! nat r) ! nat c) =
                   cellPiece h (cellsOf h (rowsOf h nb ! nat r) ! nat c)"
          by (cases "cellsOf h (rowsOf h nb ! nat r) ! nat c") (simp_all add: cellPiece_def up)
        with l rr False show ?thesis by (auto simp: boardAt_boardSet)
      qed
    qed
  qed
  then show ?thesis by (simp add: h'_def)
qed

text \<open>A write into a square and a write into a piece object can change places.\<close>

lemma writeCell_update_piece:
  assumes pa: "pieceOf h pa = Some p"
  shows "writeCell (h[pa := PieceObj q]) nb r c v = (writeCell h nb r c v)[pa := PieceObj q]"
proof -
  define h' where "h' = h[pa := PieceObj q]"
  note up = update_piece[OF pa, of q, folded h'_def]
  from pa have lt: "pa < length h" by (rule pieceOf_Some_lt)
  from pa have old: "heapAt h pa = Some (PieceObj p)"
    by (auto simp: pieceOf_def split: option.splits object.splits)
  have at: "heapAt h' a = (if a = pa then Some (PieceObj q) else heapAt h a)" for a
    using lt by (simp add: heapAt_def h'_def nth_list_update)
  show ?thesis
  proof (cases "0 \<le> r \<and> 0 \<le> c \<and> nat r < length (rowsOf h nb)")
    case False
    then show ?thesis by (auto simp: writeCell_def up h'_def[symmetric])
  next
    case True
    define ra where "ra = rowsOf h nb ! nat r"
    show ?thesis
    proof (cases "ra = pa")
      case same: True
      with True old have "writeCell h nb r c v = h" by (simp add: writeCell_def Let_def ra_def)
      moreover from True same at[of pa] have "writeCell h' nb r c v = h'"
        by (simp add: writeCell_def Let_def ra_def up)
      ultimately show ?thesis by (simp add: h'_def)
    next
      case diff: False
      with at[of ra] have ate: "heapAt h' ra = heapAt h ra" by simp
      show ?thesis
      proof (cases "\<exists>cs. heapAt h ra = Some (RowObj cs)")
        case False
        with True have "writeCell h nb r c v = h"
          by (auto simp: writeCell_def Let_def ra_def split: option.splits object.splits)
        moreover from False True ate have "writeCell h' nb r c v = h'"
          by (auto simp: writeCell_def Let_def ra_def up split: option.splits object.splits)
        ultimately show ?thesis by (simp add: h'_def)
      next
        case ex: True
        then obtain cs where cs: "heapAt h ra = Some (RowObj cs)" ..
        with True have "writeCell h nb r c v = h[ra := RowObj (cs[nat c := v])]"
          by (simp add: writeCell_def Let_def ra_def)
        moreover from cs True ate have "writeCell h' nb r c v = h'[ra := RowObj (cs[nat c := v])]"
          by (simp add: writeCell_def Let_def ra_def up)
        ultimately show ?thesis using diff by (simp add: h'_def list_update_swap)
      qed
    qed
  qed
qed

lemma ownedBoard_rows: "ownedBoard n h nb \<Longrightarrow> list_all (isRow h) (rowsOf h nb)"
  by (simp add: ownedBoard_def ownedRow_def list_all_iff)

lemma pieceOf_nth: "pieceOf h pa = Some p \<Longrightarrow> h[pa := PieceObj p] = h"
proof -
  assume a: "pieceOf h pa = Some p"
  then have "pa < length h" by (rule pieceOf_Some_lt)
  moreover from a have "h ! pa = PieceObj p"
    by (auto simp: pieceOf_def heapAt_def split: if_splits option.splits object.splits)
  ultimately show ?thesis by (simp add: list_update_same_conv)
qed

text \<open>
  The statements of \<open>executeMove\<close> after the copy, on a separated board \<open>nb\<close> whose
  square \<open>move.from\<close> refers to the piece object \<open>pa\<close>: the board they leave reads
  as the value that \<open>executeMove\<close> computes.
\<close>

lemma writes_refine:
  assumes rows: "list_all (isRow h1) (rowsOf h1 nb)" and sep: "separated h1 nb"
    and rc: "readCell h1 nb (row (moveFrom m)) (col (moveFrom m)) = Some pa"
    and pa: "pieceOf h1 pa = Some piece"
  defines "q \<equiv> (if promotes piece m then piece\<lparr>type := King\<rparr> else piece)"
  defines "h2 \<equiv> writeCell h1 nb (row (moveTo m)) (col (moveTo m)) (Some pa)"
  defines "h3 \<equiv> writeCell h2 nb (row (moveFrom m)) (col (moveFrom m)) None"
  defines "h4 \<equiv> (if isCapture m then
                    (case capturedPiece m of None \<Rightarrow> h3
                     | Some cp \<Rightarrow> writeCell h3 nb (row cp) (col cp) None)
                  else h3)"
  defines "b1 \<equiv> boardSet (readBoard h1 nb) (row (moveTo m)) (col (moveTo m)) (Some q)"
  defines "b2 \<equiv> boardSet b1 (row (moveFrom m)) (col (moveFrom m)) None"
  defines "b3 \<equiv> (if isCapture m then
                    (case capturedPiece m of None \<Rightarrow> b2
                     | Some cp \<Rightarrow> boardSet b2 (row cp) (col cp) None)
                  else b2)"
  shows "promoteObj h4 pa m = (h4[pa := PieceObj q], promotes piece m) \<and>
         readBoard (h4[pa := PieceObj q]) nb = b3"
proof -
  let ?fr = "row (moveFrom m)" and ?fc = "col (moveFrom m)"
  let ?tr = "row (moveTo m)" and ?tc = "col (moveTo m)"
  from sep have dist: "distinct (rowsOf h1 nb)" by (simp add: separated_def)
  have p2: "pieceOf h2 pa = Some piece" unfolding h2_def using pa by (simp add: writeCell_keeps)
  have p3: "pieceOf h3 pa = Some piece" unfolding h3_def using p2 by (simp add: writeCell_keeps)
  have p4: "pieceOf h4 pa = Some piece" unfolding h4_def using p3
    by (simp add: writeCell_keeps split: option.splits)
  have prom: "promoteObj h4 pa m = (h4[pa := PieceObj q], promotes piece m)"
  proof (cases "promotes piece m")
    case True
    with p4 show ?thesis by (simp add: promoteObj_def q_def)
  next
    case False
    with p4 pieceOf_nth[OF p4] show ?thesis by (simp add: promoteObj_def q_def)
  qed
  define g1 where "g1 = h1[pa := PieceObj q]"
  define g2 where "g2 = writeCell g1 nb ?tr ?tc (Some pa)"
  define g3 where "g3 = writeCell g2 nb ?fr ?fc None"
  define g4 where "g4 = (if isCapture m then
                    (case capturedPiece m of None \<Rightarrow> g3
                     | Some cp \<Rightarrow> writeCell g3 nb (row cp) (col cp) None)
                  else g3)"
  have e2: "g2 = h2[pa := PieceObj q]"
    unfolding g2_def g1_def h2_def by (rule writeCell_update_piece[OF pa])
  have e3: "g3 = h3[pa := PieceObj q]"
    unfolding g3_def e2 h3_def by (rule writeCell_update_piece[OF p2])
  have e4: "g4 = h4[pa := PieceObj q]"
    unfolding g4_def e3 h4_def
    by (simp add: writeCell_update_piece[OF p3] split: option.splits)
  note up = update_piece[OF pa, of q, folded g1_def]
  have rows1: "list_all (isRow g1) (rowsOf g1 nb)" and dist1: "distinct (rowsOf g1 nb)"
    using rows dist by (simp_all add: up)
  have rows2: "list_all (isRow g2) (rowsOf g2 nb)" and dist2: "distinct (rowsOf g2 nb)"
    unfolding g2_def using rows1 dist1 by (simp_all add: writeCell_keeps)
  have rows3: "list_all (isRow g3) (rowsOf g3 nb)" and dist3: "distinct (rowsOf g3 nb)"
    unfolding g3_def using rows2 dist2 by (simp_all add: writeCell_keeps)
  have r1: "readBoard g1 nb = boardSet (readBoard h1 nb) ?fr ?fc (Some q)"
    unfolding g1_def by (rule readBoard_update_piece[OF pa sep rc])
  have "cellPiece g1 (Some pa) = Some q" by (simp add: cellPiece_def up)
  with readBoard_writeCell[OF rows1 dist1, of ?tr ?tc "Some pa"]
  have r2: "readBoard g2 nb = boardSet (readBoard g1 nb) ?tr ?tc (Some q)"
    by (simp add: g2_def)
  from readBoard_writeCell[OF rows2 dist2, of ?fr ?fc None]
  have r3: "readBoard g3 nb = boardSet (readBoard g2 nb) ?fr ?fc None"
    by (simp add: g3_def cellPiece_def)
  have r3': "readBoard g3 nb = b2"
    unfolding r3 r2 r1 b2_def b1_def by (rule boardSet_absorb)
  have r4: "readBoard g4 nb = b3"
  proof (cases "isCapture m")
    case False
    with r3' show ?thesis by (simp add: g4_def b3_def)
  next
    case True
    show ?thesis
    proof (cases "capturedPiece m")
      case None
      with True r3' show ?thesis by (simp add: g4_def b3_def)
    next
      case (Some cp)
      from readBoard_writeCell[OF rows3 dist3, of "row cp" "col cp" None] r3'
      have "readBoard (writeCell g3 nb (row cp) (col cp) None) nb = boardSet b2 (row cp) (col cp) None"
        by (simp add: cellPiece_def)
      with True Some show ?thesis by (simp add: g4_def b3_def)
    qed
  qed
  from prom r4 show ?thesis unfolding e4 by simp
qed

text \<open>
  \<open>executeMove\<close> on the heap computes what \<open>executeMove\<close> on the contents of the board
  computes: the same error, or the same flag and a new board of the computed
  contents.
\<close>

lemma executeMoveH_refines:
  assumes typed: "ownedBoard 0 h cb"
  shows "case executeMove (readBoard h cb) m of
           Inl e \<Rightarrow> snd (executeMoveH h cb m) = Inl e
         | Inr (b', pr) \<Rightarrow>
             (\<exists>h' nb. executeMoveH h cb m = (h', Inr (nb, pr)) \<and> readBoard h' nb = b')"
proof -
  let ?fr = "row (moveFrom m)" and ?fc = "col (moveFrom m)"
  let ?B = "readBoard h cb"
  obtain h1 nb where cp: "copyBoard h cb = (h1, nb)" by (cases "copyBoard h cb")
  from copyBoard_spec[OF cp] typed have o1: "ownedBoard (length h) h1 nb"
    and r1: "readBoard h1 nb = ?B" by simp_all
  from copyBoard_separated[OF cp] have sep: "separated h1 nb" .
  from o1 have rows: "list_all (isRow h1) (rowsOf h1 nb)" by (rule ownedBoard_rows)
  have at: "boardAt ?B ?fr ?fc = cellPiece h1 (readCell h1 nb ?fr ?fc)"
    unfolding r1[symmetric] by (rule boardAt_readBoard)
  show ?thesis
  proof (cases "isValidIndex ?fr")
    case False
    then show ?thesis by (simp add: executeMove_def executeMoveH_def cp)
  next
    case vf: True
    show ?thesis
    proof (cases "readCell h1 nb ?fr ?fc")
      case None
      with at have "boardAt ?B ?fr ?fc = None" by (simp add: cellPiece_def)
      with None vf show ?thesis by (simp add: executeMove_def executeMoveH_def cp)
    next
      case (Some pa)
      from readCell_owned[OF o1 Some] obtain piece where pa: "pieceOf h1 pa = Some piece"
        by (auto simp: ownedCell_Some)
      with at Some have occ: "boardAt ?B ?fr ?fc = Some piece" by (simp add: cellPiece_def)
      let ?c1 = "\<not> isValidIndex (row (moveTo m))"
      let ?c2 = "isCapture m \<and> (case capturedPiece m of None \<Rightarrow> False
                                 | Some cp \<Rightarrow> \<not> isValidIndex (row cp))"
      let ?c3 = "\<not> isValidIndex (col (moveTo m)) \<or>
                 (isCapture m \<and> (case capturedPiece m of None \<Rightarrow> False
                                  | Some cp \<Rightarrow> \<not> isValidIndex (col cp)))"
      show ?thesis
      proof (cases "?c1 \<or> ?c2 \<or> ?c3")
        case True
        then consider "?c1" | "\<not> ?c1" "?c2" | "\<not> ?c1" "\<not> ?c2" "?c3" by blast
        then show ?thesis
        proof cases
          case 1
          with vf Some occ show ?thesis by (simp add: executeMove_def executeMoveH_def cp)
        next
          case 2
          with vf Some occ show ?thesis by (simp add: executeMove_def executeMoveH_def cp)
        next
          case 3
          with vf Some occ show ?thesis
            by (simp add: executeMove_def executeMoveH_def cp del: de_Morgan_conj)
        qed
      next
        case False
        then have n1: "\<not> ?c1" and n2: "\<not> ?c2" and n3: "\<not> ?c3" by blast+
        define q where "q = (if promotes piece m then piece\<lparr>type := King\<rparr> else piece)"
        define h2 where "h2 = writeCell h1 nb (row (moveTo m)) (col (moveTo m)) (Some pa)"
        define h3 where "h3 = writeCell h2 nb ?fr ?fc None"
        define h4 where "h4 = (if isCapture m then
                    (case capturedPiece m of None \<Rightarrow> h3
                     | Some cp \<Rightarrow> writeCell h3 nb (row cp) (col cp) None)
                  else h3)"
        define b1 where "b1 = boardSet (readBoard h1 nb) (row (moveTo m)) (col (moveTo m)) (Some q)"
        define b2 where "b2 = boardSet b1 ?fr ?fc None"
        define b3 where "b3 = (if isCapture m then
                    (case capturedPiece m of None \<Rightarrow> b2
                     | Some cp \<Rightarrow> boardSet b2 (row cp) (col cp) None)
                  else b2)"
        have w: "promoteObj h4 pa m = (h4[pa := PieceObj q], promotes piece m) \<and>
                 readBoard (h4[pa := PieceObj q]) nb = b3"
          unfolding h4_def h3_def h2_def b3_def b2_def b1_def q_def
          by (rule writes_refine[OF rows sep Some pa])
        have hp: "executeMoveH h cb m =
                  (case promoteObj h4 pa m of (h5, promoted) \<Rightarrow> (h5, Inr (nb, promoted)))"
          unfolding executeMoveH_def h4_def h3_def h2_def
          using vf Some n1 n2 n3
          by (cases "isCapture m"; cases "capturedPiece m") (simp_all add: cp Let_def)
        have pp: "executeMove ?B m = Inr (b3, promotes piece m)"
          unfolding executeMove_def b3_def b2_def b1_def q_def r1
          using vf occ n1 n2 n3
          by (cases "isCapture m"; cases "capturedPiece m") (simp_all add: Let_def)
        from w hp have "executeMoveH h cb m = (h4[pa := PieceObj q], Inr (nb, promotes piece m))"
          by simp
        with w pp show ?thesis by simp
      qed
    qed
  qed
qed

lemma executeMoveH_deterministic:
  assumes t1: "ownedBoard 0 h1 b1" and t2: "ownedBoard 0 h2 b2"
    and eq: "readBoard h1 b1 = readBoard h2 b2"
  shows "sameOutcome (executeMoveH h1 b1 m) (executeMoveH h2 b2 m)"
proof (cases "executeMove (readBoard h1 b1) m")
  case (Inl e)
  with executeMoveH_refines[OF t1, of m] have "snd (executeMoveH h1 b1 m) = Inl e" by simp
  moreover from Inl eq executeMoveH_refines[OF t2, of m]
  have "snd (executeMoveH h2 b2 m) = Inl e" by simp
  ultimately show ?thesis by (simp add: sameOutcome_def)
next
  case (Inr res)
  obtain b' pr where res: "res = (b', pr)" by (cases res)
  from Inr res executeMoveH_refines[OF t1, of m] obtain g1 n1 where
    e1: "executeMoveH h1 b1 m = (g1, Inr (n1, pr))" "readBoard g1 n1 = b'" by auto
  from Inr res eq executeMoveH_refines[OF t2, of m] obtain g2 n2 where
    e2: "executeMoveH h2 b2 m = (g2, Inr (n2, pr))" "readBoard g2 n2 = b'" by auto
  from e1 e2 show ?thesis by (simp add: sameOutcome_def)
qed


subsection \<open>The input board is left as it was\<close>

text \<open>
  Claim C4. For every heap holding a board \<open>currentBoard\<close> of 8x8 squares and every
  move on the grid whose from square is occupied, \<open>executeMove\<close> returns a board and
  a promoted flag, and leaves the input board unchanged: every object that existed
  before the call is the same after it, so every square of the input board holds the
  same occupant (same owner and rank) as before. The returned board is a fresh value,
  distinct from the input: its outer array, its rows and its pieces are all objects
  made by the call, none of them an object of the heap before the call. Its contents
  are the board that \<open>executeMove\<close> computes from the contents of the input.
\<close>

theorem executeMove_fresh_board:
  assumes typed: "ownedBoard 0 h currentBoard"
    and wf: "wf_board (readBoard h currentBoard)"
    and vf: "isValidPos (row (moveFrom m)) (col (moveFrom m))"
    and vt: "isValidPos (row (moveTo m)) (col (moveTo m))"
    and vc: "case capturedPiece m of None \<Rightarrow> True | Some cp \<Rightarrow> isValidPos (row cp) (col cp)"
    and occ: "boardAt (readBoard h currentBoard) (row (moveFrom m)) (col (moveFrom m)) \<noteq> None"
  shows "\<exists>h' newBoard promoted.
           executeMoveH h currentBoard m = (h', Inr (newBoard, promoted)) \<and>
           heapPrefix h h' \<and>
           readBoard h' currentBoard = readBoard h currentBoard \<and>
           newBoard \<noteq> currentBoard \<and>
           ownedBoard (length h) h' newBoard \<and>
           executeMove (readBoard h currentBoard) m = Inr (readBoard h' newBoard, promoted)"
proof -
  let ?B = "readBoard h currentBoard"
  from occ obtain piece where pc: "boardAt ?B (row (moveFrom m)) (col (moveFrom m)) = Some piece"
    by auto
  from vf vt vc have ok:
    "isValidIndex (row (moveFrom m))" "isValidIndex (row (moveTo m))"
    "isValidIndex (col (moveTo m))"
    "\<And>cp. capturedPiece m = Some cp \<Longrightarrow> isValidIndex (row cp) \<and> isValidIndex (col cp)"
    by (auto simp: isValidPos_def isValidIndex_def)
  have "\<exists>b' pr. executeMove ?B m = Inr (b', pr)"
    using ok pc by (cases "capturedPiece m") (simp_all add: executeMove_def Let_def)
  then obtain b' pr where pure: "executeMove ?B m = Inr (b', pr)" by blast
  with executeMoveH_refines[OF typed, of m] obtain h' nb where
    res: "executeMoveH h currentBoard m = (h', Inr (nb, pr))" and rb: "readBoard h' nb = b'"
    by auto
  from executeMoveH_frame[OF typed, of m] res have pre: "heapPrefix h h'" by simp
  from readBoard_prefix[OF pre typed] have same: "readBoard h' currentBoard = ?B" .
  obtain h1 nb1 where cp: "copyBoard h currentBoard = (h1, nb1)"
    by (cases "copyBoard h currentBoard")
  from copyBoard_spec[OF cp] have o1: "ownedBoard (length h) h1 nb1" by simp
  have own: "ownedBoard (length h) h' nb"
  proof (cases "readCell h1 nb1 (row (moveFrom m)) (col (moveFrom m))")
    case None
    with res show ?thesis by (simp add: executeMoveH_def cp split: if_splits)
  next
    case (Some pa)
    define h2 where "h2 = writeCell h1 nb1 (row (moveTo m)) (col (moveTo m)) (Some pa)"
    define h3 where "h3 = writeCell h2 nb1 (row (moveFrom m)) (col (moveFrom m)) None"
    define h4 where "h4 = (if isCapture m then
                    (case capturedPiece m of None \<Rightarrow> h3
                     | Some cp \<Rightarrow> writeCell h3 nb1 (row cp) (col cp) None)
                  else h3)"
    have w: "ownedBoard (length h) (fst (promoteObj h4 pa m)) nb1"
      unfolding h4_def h3_def h2_def using writes_frame[OF o1 Some] by (rule conjunct2)
    have "executeMoveH h currentBoard m =
            (fst (promoteObj h4 pa m), Inr (nb1, snd (promoteObj h4 pa m)))"
      unfolding executeMoveH_def h4_def h3_def h2_def using Some ok
      by (cases "isCapture m"; cases "capturedPiece m")
         (simp_all add: cp Let_def split_beta)
    with res w show ?thesis by simp
  qed
  from typed have "currentBoard < length h" by (simp add: ownedBoard_def isGrid_lt)
  moreover from own have "length h \<le> nb" by (simp add: ownedBoard_def)
  ultimately have ne: "nb \<noteq> currentBoard" by simp
  from res pre same ne own pure rb show ?thesis by auto
qed

theorem executeMove_fresh_board_witness:
  "ownedBoard 0 promoHeap promoAddr \<and> readBoard promoHeap promoAddr = promoBoard \<and>
   wf_board promoBoard \<and> boardAt promoBoard 1 2 = Some \<lparr>player = Red, type = Man\<rparr> \<and>
   length promoHeap = 11 \<and> promoAddr = 10 \<and>
   snd (executeMoveH promoHeap promoAddr (slideMove (pos 1 2) 0 1)) = Inr (21, True) \<and>
   heapPrefix promoHeap (fst (executeMoveH promoHeap promoAddr (slideMove (pos 1 2) 0 1))) \<and>
   readBoard (fst (executeMoveH promoHeap promoAddr (slideMove (pos 1 2) 0 1))) promoAddr = promoBoard \<and>
   ownedBoard 11 (fst (executeMoveH promoHeap promoAddr (slideMove (pos 1 2) 0 1))) 21 \<and>
   readBoard (fst (executeMoveH promoHeap promoAddr (slideMove (pos 1 2) 0 1))) 21 = promotedBoard \<and>
   executeMove promoBoard (slideMove (pos 1 2) 0 1) = Inr (promotedBoard, True)"
proof -
  let ?m = "slideMove (pos 1 2) 0 1"
  have ty: "ownedBoard 0 promoHeap promoAddr" by code_simp
  have rb: "readBoard promoHeap promoAddr = promoBoard" by code_simp
  have wf: "wf_board promoBoard" by code_simp
  have at: "boardAt promoBoard 1 2 = Some \<lparr>player = Red, type = Man\<rparr>" by code_simp
  have len: "length promoHeap = 11" by code_simp
  have ad: "promoAddr = 10" by code_simp
  have res: "snd (executeMoveH promoHeap promoAddr ?m) = Inr (21, True)" by code_simp
  have king: "readBoard (fst (executeMoveH promoHeap promoAddr ?m)) 21 = promotedBoard"
    by code_simp
  have sel: "row (moveFrom ?m) = 1" "col (moveFrom ?m) = 2"
            "row (moveTo ?m) = 0" "col (moveTo ?m) = 1" "capturedPiece ?m = None"
    by (simp_all add: slideMove_def pos_def)
  have v: "isValidPos (row (moveFrom ?m)) (col (moveFrom ?m))"
          "isValidPos (row (moveTo ?m)) (col (moveTo ?m))"
          "case capturedPiece ?m of None \<Rightarrow> True | Some cp \<Rightarrow> isValidPos (row cp) (col cp)"
    unfolding sel by (simp_all add: isValidPos_def BOARD_SIZE_def)
  have wf': "wf_board (readBoard promoHeap promoAddr)" unfolding rb by (rule wf)
  have occ: "boardAt (readBoard promoHeap promoAddr) (row (moveFrom ?m)) (col (moveFrom ?m)) \<noteq> None"
    unfolding rb sel at by simp
  from executeMove_fresh_board[OF ty wf' v occ] obtain h' nb pr where
    e: "executeMoveH promoHeap promoAddr ?m = (h', Inr (nb, pr))"
    and p: "heapPrefix promoHeap h'" and r: "readBoard h' promoAddr = readBoard promoHeap promoAddr"
    and o: "ownedBoard (length promoHeap) h' nb"
    and x: "executeMove (readBoard promoHeap promoAddr) ?m = Inr (readBoard h' nb, pr)" by blast
  from e res have nb: "nb = 21" "pr = True" by simp_all
  from e have h': "fst (executeMoveH promoHeap promoAddr ?m) = h'" by simp
  from king have king': "readBoard h' 21 = promotedBoard" unfolding h' .
  from x have x': "executeMove promoBoard ?m = Inr (promotedBoard, True)"
    unfolding rb nb king' .
  from p have p': "heapPrefix promoHeap (fst (executeMoveH promoHeap promoAddr ?m))"
    unfolding h' .
  from r have r': "readBoard (fst (executeMoveH promoHeap promoAddr ?m)) promoAddr = promoBoard"
    unfolding h' rb .
  from o have o': "ownedBoard 11 (fst (executeMoveH promoHeap promoAddr ?m)) 21"
    unfolding h' len nb .
  from ty rb wf at len ad res p' r' o' king x' show ?thesis by (intro conjI)
qed

section \<open>The rays of a king\<close>

lemma set_boardIndices: "set boardIndices = {i. isValidIndex i}"
  by (auto simp: boardIndices_def isValidIndex_def BOARD_SIZE_def)

lemma set_allSquares: "set allSquares = {(r, c). isValidPos r c}"
proof -
  have "isValidPos r c = (isValidIndex r \<and> isValidIndex c)" for r c
    by (auto simp: isValidPos_def isValidIndex_def)
  then show ?thesis
    by (auto simp: allSquares_def set_boardIndices)
qed

lemma kingRay_found:
  "kingRay b start p dr dc r c True (Some opp) =
     (if isValidPos r c \<and> dr \<noteq> 0 \<and> boardAt b r c = None
      then [captureMove start r c opp] else [])"
  by (subst kingRay.simps) (auto split: option.splits)

lemma kingRay_empty:
  "isValidPos r c \<Longrightarrow> dr \<noteq> 0 \<Longrightarrow> boardAt b r c = None \<Longrightarrow>
   kingRay b start p dr dc r c False None =
     slideMove start r c # kingRay b start p dr dc (r + dr) (c + dc) False None"
  by (subst kingRay.simps) simp

lemma kingRay_enemy:
  "isValidPos r c \<Longrightarrow> dr \<noteq> 0 \<Longrightarrow> boardAt b r c = Some q \<Longrightarrow> player q \<noteq> p \<Longrightarrow>
   kingRay b start p dr dc r c False None =
     (if isValidPos (r + dr) (c + dc) \<and> boardAt b (r + dr) (c + dc) = None
      then [captureMove start (r + dr) (c + dc) \<lparr>row = r, col = c\<rparr>] else [])"
  by (subst kingRay.simps) (simp add: kingRay_found)

lemma kingRay_own:
  "boardAt b r c = Some q \<Longrightarrow> player q = p \<Longrightarrow>
   kingRay b start p dr dc r c False None = []"
  by (subst kingRay.simps) simp

lemma kingRay_off:
  "\<not> isValidPos r c \<Longrightarrow> kingRay b start p dr dc r c f opp = []"
  by (subst kingRay.simps) simp

lemma empty_prefix_shift:
  assumes e: "boardAt b r c = None"
    and h: "\<forall>j < n. boardAt b (r + int (Suc j) * dr) (c + int (Suc j) * dc) = None"
  shows "\<forall>j < Suc n. boardAt b (r + int j * dr) (c + int j * dc) = None"
proof (intro allI impI)
  fix j assume j: "j < Suc n"
  show "boardAt b (r + int j * dr) (c + int j * dc) = None"
  proof (cases j)
    case 0
    with e show ?thesis by simp
  next
    case (Suc j')
    with j have "j' < n" by simp
    with h have "boardAt b (r + int (Suc j') * dr) (c + int (Suc j') * dc) = None"
      by simp
    then show ?thesis using Suc by simp
  qed
qed

lemma rayStepMove_shift:
  assumes e: "boardAt b r c = None"
    and s: "rayStepMove b start p dr dc (r + dr) (c + dc) k m"
  shows "rayStepMove b start p dr dc r c (Suc k) m"
proof -
  have sh: "r + dr + int j * dr = r + int (Suc j) * dr"
           "c + dc + int j * dc = c + int (Suc j) * dc" for j
    by (simp_all add: algebra_simps)
  note s' = s[unfolded rayStepMove_def sh]
  from s' have v: "isValidPos (r + int (Suc k) * dr) (c + int (Suc k) * dc)"
    by (elim conjE)
  from s' have t: "boardAt b (r + int (Suc k) * dr) (c + int (Suc k) * dc) = None"
    by (elim conjE)
  from s' have d:
    "(m = slideMove start (r + int (Suc k) * dr) (c + int (Suc k) * dc) \<and>
      (\<forall>j < k. boardAt b (r + int (Suc j) * dr) (c + int (Suc j) * dc) = None)) \<or>
     (\<exists>k'. k = Suc k' \<and>
        m = captureMove start (r + int (Suc k) * dr) (c + int (Suc k) * dc)
              \<lparr>row = r + int (Suc k') * dr, col = c + int (Suc k') * dc\<rparr> \<and>
        (\<exists>q. boardAt b (r + int (Suc k') * dr) (c + int (Suc k') * dc) = Some q \<and>
             player q \<noteq> p) \<and>
        (\<forall>j < k'. boardAt b (r + int (Suc j) * dr) (c + int (Suc j) * dc) = None))"
    by (elim conjE)
  from d show ?thesis
  proof (elim disjE exE conjE)
    assume m: "m = slideMove start (r + int (Suc k) * dr) (c + int (Suc k) * dc)"
      and h: "\<forall>j < k. boardAt b (r + int (Suc j) * dr) (c + int (Suc j) * dc) = None"
    from empty_prefix_shift[OF e h] m v t show ?thesis
      unfolding rayStepMove_def by (intro conjI disjI1)
  next
    fix k' q
    assume k: "k = Suc k'"
      and m: "m = captureMove start (r + int (Suc k) * dr) (c + int (Suc k) * dc)
              \<lparr>row = r + int (Suc k') * dr, col = c + int (Suc k') * dc\<rparr>"
      and q: "boardAt b (r + int (Suc k') * dr) (c + int (Suc k') * dc) = Some q"
             "player q \<noteq> p"
      and h: "\<forall>j < k'. boardAt b (r + int (Suc j) * dr) (c + int (Suc j) * dc) = None"
    have c: "\<exists>k''. Suc k = Suc k'' \<and>
        m = captureMove start (r + int (Suc k) * dr) (c + int (Suc k) * dc)
              \<lparr>row = r + int k'' * dr, col = c + int k'' * dc\<rparr> \<and>
        (\<exists>q. boardAt b (r + int k'' * dr) (c + int k'' * dc) = Some q \<and> player q \<noteq> p) \<and>
        (\<forall>j < k''. boardAt b (r + int j * dr) (c + int j * dc) = None)"
    proof (intro exI[of _ "Suc k'"] conjI)
      show "Suc k = Suc (Suc k')" using k by simp
      show "m = captureMove start (r + int (Suc k) * dr) (c + int (Suc k) * dc)
              \<lparr>row = r + int (Suc k') * dr, col = c + int (Suc k') * dc\<rparr>" by (rule m)
      show "\<exists>q. boardAt b (r + int (Suc k') * dr) (c + int (Suc k') * dc) = Some q \<and>
              player q \<noteq> p" using q by blast
      show "\<forall>j < Suc k'. boardAt b (r + int j * dr) (c + int j * dc) = None"
        by (rule empty_prefix_shift[OF e h])
    qed
    from c v t show ?thesis
      unfolding rayStepMove_def by (intro conjI disjI2)
  qed
qed

lemma kingRay_sound:
  "m \<in> set (kingRay b start p dr dc r c False None) \<Longrightarrow>
   \<exists>k. rayStepMove b start p dr dc r c k m"
proof (induction "if dr > 0 then nat (BOARD_SIZE - r) else nat (r + 1)" arbitrary: r c rule: less_induct)
  case less
  show ?case
  proof (cases "isValidPos r c \<and> dr \<noteq> 0")
    case False
    then have "kingRay b start p dr dc r c False None = []"
      by (subst kingRay.simps) auto
    with less.prems show ?thesis by simp
  next
    case True
    then have v: "isValidPos r c" and nz: "dr \<noteq> 0" by simp_all
    show ?thesis
    proof (cases "boardAt b r c")
      case None
      from less.prems have "m = slideMove start r c \<or>
          m \<in> set (kingRay b start p dr dc (r + dr) (c + dc) False None)"
        by (simp add: kingRay_empty[OF v nz None])
      then show ?thesis
      proof
        assume "m = slideMove start r c"
        with v None have "rayStepMove b start p dr dc r c 0 m"
          by (simp add: rayStepMove_def)
        then show ?thesis ..
      next
        assume mem: "m \<in> set (kingRay b start p dr dc (r + dr) (c + dc) False None)"
        have dec: "(if dr > 0 then nat (BOARD_SIZE - (r + dr)) else nat (r + dr + 1))
                 < (if dr > 0 then nat (BOARD_SIZE - r) else nat (r + 1))"
          using v nz by (auto simp: isValidPos_def BOARD_SIZE_def)
        from less.hyps[OF dec mem] obtain k where
          "rayStepMove b start p dr dc (r + dr) (c + dc) k m" ..
        from rayStepMove_shift[OF None this] show ?thesis ..
      qed
    next
      case (Some q)
      show ?thesis
      proof (cases "player q = p")
        case True
        with less.prems Some show ?thesis by (simp add: kingRay_own)
      next
        case False
        from less.prems have m: "m = captureMove start (r + dr) (c + dc) \<lparr>row = r, col = c\<rparr>"
          and v': "isValidPos (r + dr) (c + dc)" and e': "boardAt b (r + dr) (c + dc) = None"
          by (auto simp: kingRay_enemy[OF v nz Some False] split: if_splits)
        have "rayStepMove b start p dr dc r c (Suc 0) m"
          unfolding rayStepMove_def using m v' e' Some False by auto
        then show ?thesis ..
      qed
    qed
  qed
qed

lemma rayStepMove_from: "rayStepMove b start p dr dc r c k m \<Longrightarrow> moveFrom m = start"
  unfolding rayStepMove_def by (elim conjE disjE exE) (simp_all add: slideMove_def captureMove_def)

lemma getKingMoves_ray:
  assumes "m \<in> set (getKingMoves b start p)"
  shows "\<exists>d \<in> set kingDirections. \<exists>k.
           rayStepMove b start p (fst d) (snd d) (row start + fst d) (col start + snd d) k m"
proof -
  from assms obtain d where d: "d \<in> set kingDirections"
    and m: "m \<in> set (kingRay b start p (fst d) (snd d) (row start + fst d) (col start + snd d)
                       False None)"
    unfolding getKingMoves_def by auto
  from kingRay_sound[OF m] d show ?thesis by blast
qed

lemma getManMoves_from: "m \<in> set (getManMoves b start p) \<Longrightarrow> moveFrom m = start"
  by (auto simp: getManMoves_def manSimpleMove_def manCapture_def Let_def slideMove_def
        captureMove_def split: if_splits option.splits)

lemma getKingMoves_from: "m \<in> set (getKingMoves b start p) \<Longrightarrow> moveFrom m = start"
  using getKingMoves_ray rayStepMove_from by blast

lemma squareMoves_from:
  "m \<in> set (squareMoves b p sq) \<Longrightarrow> moveFrom m = \<lparr>row = fst sq, col = snd sq\<rparr>"
  by (auto simp: squareMoves_def getPieceMoves_def getManMoves_from getKingMoves_from
        split: option.splits if_splits)

lemma set_forcedCaptures: "set (forcedCaptures ms) \<subseteq> set ms"
  by (auto simp: forcedCaptures_def Let_def)

lemma forcedCaptures_keeps_capture:
  "m \<in> set ms \<Longrightarrow> isCapture m \<Longrightarrow> m \<in> set (forcedCaptures ms)"
  by (auto simp: forcedCaptures_def Let_def filter_empty_conv)

lemma getValidMoves_square:
  assumes "m \<in> set (getValidMoves b p None)"
  shows "m \<in> set (squareMoves b p (row (moveFrom m), col (moveFrom m))) \<and>
         isValidPos (row (moveFrom m)) (col (moveFrom m))"
proof -
  from assms have "m \<in> set (forcedCaptures (concat (map (squareMoves b p) allSquares)))"
    by (simp add: getValidMoves_def)
  with set_forcedCaptures have "m \<in> set (concat (map (squareMoves b p) allSquares))"
    by (rule subsetD)
  then obtain sq where sq: "sq \<in> set allSquares" and m: "m \<in> set (squareMoves b p sq)"
    by auto
  from squareMoves_from[OF m] have "sq = (row (moveFrom m), col (moveFrom m))"
    by (cases sq) simp
  with sq m show ?thesis by (simp add: set_allSquares)
qed

lemma king_moves_of_square:
  fixes start :: Position
  assumes m: "m \<in> set (getValidMoves b p None)"
    and f: "moveFrom m = start"
    and k: "boardAt b (row start) (col start) = Some \<lparr>player = p, type = King\<rparr>"
  shows "m \<in> set (getKingMoves b start p)"
proof -
  from getValidMoves_square[OF m] f
  have "m \<in> set (squareMoves b p (row start, col start))" by simp
  moreover have "\<lparr>row = row start, col = col start\<rparr> = start" by simp
  ultimately show ?thesis using k by (simp add: squareMoves_def getPieceMoves_def)
qed

lemma rayPos_step:
  "rayPos start d (int k + 1) =
     \<lparr>row = row start + fst d + int k * fst d, col = col start + snd d + int k * snd d\<rparr>"
  by (simp add: rayPos_def algebra_simps)

lemma emptyBetween_of_prefix:
  assumes "\<forall>j < k. boardAt b (row start + fst d + int j * fst d)
                       (col start + snd d + int j * snd d) = None"
  shows "emptyBetween b start d (int k + 1)"
  unfolding emptyBetween_def
proof
  fix j assume j: "j \<in> {1..<int k + 1}"
  define j' where "j' = nat (j - 1)"
  with j have lt: "j' < k" and eq: "j = int j' + 1" by auto
  from assms lt have "boardAt b (row start + fst d + int j' * fst d)
                        (col start + snd d + int j' * snd d) = None"
    by simp
  then have "pieceAt b (rayPos start d (int j' + 1)) = None"
    unfolding rayPos_step pieceAt_def by simp
  with eq show "pieceAt b (rayPos start d j) = None" by simp
qed

lemma ray_translate:
  assumes s: "rayStepMove b start p (fst d) (snd d) (row start + fst d) (col start + snd d) k m"
  shows "moveTo m = rayPos start d (int k + 1) \<and> kingMoveAlong b start p d (int k + 1) m"
proof -
  let ?r = "row start + fst d" and ?c = "col start + snd d"
  note s' = s[unfolded rayStepMove_def]
  from s' have v: "isValidPos (?r + int k * fst d) (?c + int k * snd d)" by (elim conjE)
  from s' have e: "boardAt b (?r + int k * fst d) (?c + int k * snd d) = None" by (elim conjE)
  from s' have dj:
    "(m = slideMove start (?r + int k * fst d) (?c + int k * snd d) \<and>
      (\<forall>j < k. boardAt b (?r + int j * fst d) (?c + int j * snd d) = None)) \<or>
     (\<exists>k'. k = Suc k' \<and>
        m = captureMove start (?r + int k * fst d) (?c + int k * snd d)
              \<lparr>row = ?r + int k' * fst d, col = ?c + int k' * snd d\<rparr> \<and>
        (\<exists>q. boardAt b (?r + int k' * fst d) (?c + int k' * snd d) = Some q \<and> player q \<noteq> p) \<and>
        (\<forall>j < k'. boardAt b (?r + int j * fst d) (?c + int j * snd d) = None))"
    by (elim conjE)
  have g: "onGrid (rayPos start d (int k + 1))" "pieceAt b (rayPos start d (int k + 1)) = None"
    using v e unfolding rayPos_step onGrid_def pieceAt_def by simp_all
  from dj show ?thesis
  proof (elim disjE exE conjE)
    assume m: "m = slideMove start (?r + int k * fst d) (?c + int k * snd d)"
      and h: "\<forall>j < k. boardAt b (?r + int j * fst d) (?c + int j * snd d) = None"
    from m have "moveTo m = rayPos start d (int k + 1)" "\<not> isCapture m" "capturedPiece m = None"
      unfolding rayPos_step by (simp_all add: slideMove_def)
    with g emptyBetween_of_prefix[OF h] show ?thesis
      unfolding kingMoveAlong_def by simp
  next
    fix k' q
    assume k: "k = Suc k'"
      and m: "m = captureMove start (?r + int k * fst d) (?c + int k * snd d)
              \<lparr>row = ?r + int k' * fst d, col = ?c + int k' * snd d\<rparr>"
      and q: "boardAt b (?r + int k' * fst d) (?c + int k' * snd d) = Some q" "player q \<noteq> p"
      and h: "\<forall>j < k'. boardAt b (?r + int j * fst d) (?c + int j * snd d) = None"
    have km: "int k + 1 - 1 = int k' + 1" using k by simp
    from m have "moveTo m = rayPos start d (int k + 1)" "isCapture m"
      "capturedPiece m = Some (rayPos start d (int k' + 1))"
      unfolding rayPos_step by (simp_all add: captureMove_def)
    moreover from q have "enemyAt b p (rayPos start d (int k' + 1))"
      unfolding rayPos_step enemyAt_def pieceAt_def by simp
    moreover have "2 \<le> int k + 1" using k by simp
    ultimately show ?thesis
      using g emptyBetween_of_prefix[OF h]
      unfolding kingMoveAlong_def km by simp
  qed
qed

lemma rayPos_unique:
  assumes "d \<in> set kingDirections" "d' \<in> set kingDirections" "1 \<le> k" "1 \<le> k'"
    and "rayPos start d k = rayPos start d' k'"
  shows "d = d' \<and> k = k'"
  using assms by (auto simp: kingDirections_def rayPos_def)

lemma king_move_sound:
  fixes start :: Position
  assumes m: "m \<in> set (getValidMoves b p None)"
    and f: "moveFrom m = start"
    and kg: "boardAt b (row start) (col start) = Some \<lparr>player = p, type = King\<rparr>"
    and d: "d \<in> set kingDirections" and k: "1 \<le> k"
    and t: "moveTo m = rayPos start d k"
  shows "kingMoveAlong b start p d k m"
proof -
  from king_moves_of_square[OF m f kg] getKingMoves_ray
  obtain d' n where d': "d' \<in> set kingDirections"
    and s: "rayStepMove b start p (fst d') (snd d') (row start + fst d') (col start + snd d') n m"
    by blast
  from ray_translate[OF s] have t': "moveTo m = rayPos start d' (int n + 1)"
    and a: "kingMoveAlong b start p d' (int n + 1) m" by simp_all
  from t t' have "rayPos start d k = rayPos start d' (int n + 1)" by simp
  from rayPos_unique[OF d d' k _ this] have "d = d'" "k = int n + 1" by simp_all
  with a show ?thesis by simp
qed

lemma getKingMoves_mem:
  "d \<in> set kingDirections \<Longrightarrow>
   m \<in> set (kingRay b start p (fst d) (snd d) (row start + fst d) (col start + snd d) False None) \<Longrightarrow>
   m \<in> set (getKingMoves b start p)"
  unfolding getKingMoves_def by auto

lemma getValidMoves_capture_mem:
  fixes start :: Position
  assumes kg: "boardAt b (row start) (col start) = Some piece" "player piece = p"
    and v: "isValidPos (row start) (col start)"
    and m: "m \<in> set (getPieceMoves b start piece)" and c: "isCapture m"
  shows "m \<in> set (getValidMoves b p None)"
proof -
  have eq: "\<lparr>row = row start, col = col start\<rparr> = start" by simp
  from kg m have "m \<in> set (squareMoves b p (row start, col start))"
    by (simp add: squareMoves_def eq)
  moreover from v have "(row start, col start) \<in> set allSquares"
    by (simp add: set_allSquares)
  ultimately have "m \<in> set (concat (map (squareMoves b p) allSquares))"
    by auto
  from forcedCaptures_keeps_capture[OF this c] show ?thesis
    by (simp add: getValidMoves_def)
qed

lemma king_capture_complete:
  fixes start :: Position
  assumes wf: "wf_board b" and d: "d \<in> set kingDirections"
    and kg: "boardAt b (row start) (col start) = Some \<lparr>player = p, type = King\<rparr>"
    and e: "emptyBetween b start d 3"
    and en: "enemyAt b p (rayPos start d 3)"
    and g: "onGrid (rayPos start d 4)" and l: "pieceAt b (rayPos start d 4) = None"
  shows "captureMove start (row (rayPos start d 4)) (col (rayPos start d 4)) (rayPos start d 3)
           \<in> set (getValidMoves b p None)"
proof -
  let ?dr = "fst d" and ?dc = "snd d"
  let ?r1 = "row start + ?dr" and ?c1 = "col start + ?dc"
  from kg wf have vs: "isValidPos (row start) (col start)"
    using boardAt_Some_inBoard wf_inBoard_iff by blast
  from d have nz: "?dr \<noteq> 0" by (auto simp: kingDirections_def)
  from vs g d have v1: "isValidPos ?r1 ?c1" and v2: "isValidPos (?r1 + ?dr) (?c1 + ?dc)"
    and v3: "isValidPos (?r1 + ?dr + ?dr) (?c1 + ?dc + ?dc)"
    and v4: "isValidPos (?r1 + ?dr + ?dr + ?dr) (?c1 + ?dc + ?dc + ?dc)"
    by (auto simp: kingDirections_def isValidPos_def onGrid_def rayPos_def BOARD_SIZE_def)
  have p1: "rayPos start d 1 = \<lparr>row = ?r1, col = ?c1\<rparr>"
    and p2: "rayPos start d 2 = \<lparr>row = ?r1 + ?dr, col = ?c1 + ?dc\<rparr>"
    and p3: "rayPos start d 3 = \<lparr>row = ?r1 + ?dr + ?dr, col = ?c1 + ?dc + ?dc\<rparr>"
    and p4: "rayPos start d 4 = \<lparr>row = ?r1 + ?dr + ?dr + ?dr, col = ?c1 + ?dc + ?dc + ?dc\<rparr>"
    by (simp_all add: rayPos_def)
  have "(1::int) \<in> {1..<3}" "(2::int) \<in> {1..<3}" by simp_all
  with e have "pieceAt b (rayPos start d 1) = None" "pieceAt b (rayPos start d 2) = None"
    unfolding emptyBetween_def by blast+
  then have e1: "boardAt b ?r1 ?c1 = None" and e2: "boardAt b (?r1 + ?dr) (?c1 + ?dc) = None"
    unfolding pieceAt_def p1 p2 by simp_all
  from en obtain q where q: "boardAt b (?r1 + ?dr + ?dr) (?c1 + ?dc + ?dc) = Some q"
      "player q \<noteq> p"
    unfolding enemyAt_def pieceAt_def p3 by (auto split: option.splits)
  from l have e4: "boardAt b (?r1 + ?dr + ?dr + ?dr) (?c1 + ?dc + ?dc + ?dc) = None"
    unfolding pieceAt_def p4 by simp
  have "kingRay b start p ?dr ?dc ?r1 ?c1 False None =
          [slideMove start ?r1 ?c1, slideMove start (?r1 + ?dr) (?c1 + ?dc),
           captureMove start (?r1 + ?dr + ?dr + ?dr) (?c1 + ?dc + ?dc + ?dc)
             \<lparr>row = ?r1 + ?dr + ?dr, col = ?c1 + ?dc + ?dc\<rparr>]"
    unfolding kingRay_empty[OF v1 nz e1] kingRay_empty[OF v2 nz e2] kingRay_enemy[OF v3 nz q]
    by (simp only: v4 e4 simp_thms if_True)
  then have "captureMove start (row (rayPos start d 4)) (col (rayPos start d 4))
               (rayPos start d 3)
             \<in> set (kingRay b start p ?dr ?dc ?r1 ?c1 False None)"
    unfolding p3 p4 by simp
  from getKingMoves_mem[OF d this]
  have "captureMove start (row (rayPos start d 4)) (col (rayPos start d 4)) (rayPos start d 3)
          \<in> set (getPieceMoves b start \<lparr>player = p, type = King\<rparr>)"
    by (simp add: getPieceMoves_def)
  from getValidMoves_capture_mem[OF kg _ vs this] show ?thesis
    by (simp add: captureMove_def)
qed

text \<open>
  Claim C1 as stated fails: on \<open>flyingBoard\<close> the Red king on (7,0) has the Black man
  on (4,3) at distance 3 and the empty squares (3,4) and (2,5) beyond it, and the
  only move is the capture landing on (3,4); the scan of the ray stops there.
\<close>

theorem flying_king_counterexample:
  "boardAt flyingBoard 7 0 = Some \<lparr>player = Red, type = King\<rparr> \<and>
   boardAt flyingBoard 6 1 = None \<and> boardAt flyingBoard 5 2 = None \<and>
   boardAt flyingBoard 4 3 = Some \<lparr>player = Black, type = Man\<rparr> \<and>
   boardAt flyingBoard 3 4 = None \<and> boardAt flyingBoard 2 5 = None \<and>
   getValidMoves flyingBoard Red None = [captureMove (pos 7 0) 3 4 (pos 4 3)] \<and>
   captureMove (pos 7 0) 2 5 (pos 4 3) \<notin> set (getValidMoves flyingBoard Red None)"
  by code_simp


text \<open>
  Claim C1, amended. For a king of player \<open>p\<close> on an 8x8 board and a diagonal
  direction \<open>d\<close>: if the squares at distance 1 and 2 are empty, the square at
  distance 3 holds an enemy piece and the square at distance 4 is on the grid and
  empty, then \<open>getValidMoves\<close> includes the capture landing at distance 4 and no move
  of the king landing at distance 5 or more on that ray. And on every ray, a move of
  the king to distance \<open>k\<close> lands on an empty square of the grid and either is a slide
  with every square before it empty, or is a capture of an enemy piece at distance
  \<open>k - 1\<close> with every square before that empty: no move passes a second occupied
  square, and none passes a piece of the player.
\<close>

theorem king_ray_capture_reach:
  fixes start :: Position
  assumes wf: "wf_board b" and d: "d \<in> set kingDirections"
    and kg: "boardAt b (row start) (col start) = Some \<lparr>player = p, type = King\<rparr>"
  shows
    "(emptyBetween b start d 3 \<and> enemyAt b p (rayPos start d 3) \<and>
      onGrid (rayPos start d 4) \<and> pieceAt b (rayPos start d 4) = None \<longrightarrow>
        captureMove start (row (rayPos start d 4)) (col (rayPos start d 4)) (rayPos start d 3)
          \<in> set (getValidMoves b p None) \<and>
        (\<forall>m \<in> set (getValidMoves b p None). \<forall>k \<ge> 5.
           \<not> (moveFrom m = start \<and> moveTo m = rayPos start d k))) \<and>
     (\<forall>m \<in> set (getValidMoves b p None). \<forall>k \<ge> 1.
        moveFrom m = start \<and> moveTo m = rayPos start d k \<longrightarrow>
          onGrid (rayPos start d k) \<and> pieceAt b (rayPos start d k) = None \<and>
          ((\<not> isCapture m \<and> capturedPiece m = None \<and> emptyBetween b start d k) \<or>
           (isCapture m \<and> 2 \<le> k \<and> capturedPiece m = Some (rayPos start d (k - 1)) \<and>
            enemyAt b p (rayPos start d (k - 1)) \<and> emptyBetween b start d (k - 1))))"
proof -
  let ?cfg = "emptyBetween b start d 3 \<and> enemyAt b p (rayPos start d 3) \<and>
      onGrid (rayPos start d 4) \<and> pieceAt b (rayPos start d 4) = None"
  have A: "captureMove start (row (rayPos start d 4)) (col (rayPos start d 4))
      (rayPos start d 3) \<in> set (getValidMoves b p None)" if ?cfg
    using that king_capture_complete[OF wf d kg] by simp
  have B: "\<forall>m \<in> set (getValidMoves b p None). \<forall>k \<ge> 5.
           \<not> (moveFrom m = start \<and> moveTo m = rayPos start d k)" if cfg: ?cfg
  proof (intro ballI allI impI notI)
    fix m k
    assume m: "m \<in> set (getValidMoves b p None)" and k: "(5::int) \<le> k"
      and ft: "moveFrom m = start \<and> moveTo m = rayPos start d k"
    from k have k1: "1 \<le> k" by simp
    from king_move_sound[OF m _ kg d k1] ft have a: "kingMoveAlong b start p d k m" by simp
    from cfg have occ: "pieceAt b (rayPos start d 3) \<noteq> None"
      by (auto simp: enemyAt_def split: option.splits)
    from k have in1: "(3::int) \<in> {1..<k}" and in2: "(3::int) \<in> {1..<k - 1}" by simp_all
    from a have "emptyBetween b start d k \<or> emptyBetween b start d (k - 1)"
      unfolding kingMoveAlong_def by blast
    then show False
    proof
      assume "emptyBetween b start d k"
      with in1 have "pieceAt b (rayPos start d 3) = None" unfolding emptyBetween_def by blast
      with occ show False ..
    next
      assume "emptyBetween b start d (k - 1)"
      with in2 have "pieceAt b (rayPos start d 3) = None" unfolding emptyBetween_def by blast
      with occ show False ..
    qed
  qed
  have C: "\<forall>m \<in> set (getValidMoves b p None). \<forall>k \<ge> 1.
        moveFrom m = start \<and> moveTo m = rayPos start d k \<longrightarrow>
          onGrid (rayPos start d k) \<and> pieceAt b (rayPos start d k) = None \<and>
          ((\<not> isCapture m \<and> capturedPiece m = None \<and> emptyBetween b start d k) \<or>
           (isCapture m \<and> 2 \<le> k \<and> capturedPiece m = Some (rayPos start d (k - 1)) \<and>
            enemyAt b p (rayPos start d (k - 1)) \<and> emptyBetween b start d (k - 1)))"
  proof (intro ballI allI impI)
    fix m k
    assume m: "m \<in> set (getValidMoves b p None)" and k: "(1::int) \<le> k"
      and ft: "moveFrom m = start \<and> moveTo m = rayPos start d k"
    from king_move_sound[OF m _ kg d k] ft have "kingMoveAlong b start p d k m" by simp
    then show "onGrid (rayPos start d k) \<and> pieceAt b (rayPos start d k) = None \<and>
          ((\<not> isCapture m \<and> capturedPiece m = None \<and> emptyBetween b start d k) \<or>
           (isCapture m \<and> 2 \<le> k \<and> capturedPiece m = Some (rayPos start d (k - 1)) \<and>
            enemyAt b p (rayPos start d (k - 1)) \<and> emptyBetween b start d (k - 1)))"
      unfolding kingMoveAlong_def .
  qed
  show ?thesis
  proof (intro conjI impI)
    assume ?cfg then show "captureMove start (row (rayPos start d 4)) (col (rayPos start d 4))
      (rayPos start d 3) \<in> set (getValidMoves b p None)" by (rule A)
  next
    assume ?cfg then show "\<forall>m \<in> set (getValidMoves b p None). \<forall>k \<ge> 5.
           \<not> (moveFrom m = start \<and> moveTo m = rayPos start d k)" by (rule B)
  next
    show "\<forall>m \<in> set (getValidMoves b p None). \<forall>k \<ge> 1.
        moveFrom m = start \<and> moveTo m = rayPos start d k \<longrightarrow>
          onGrid (rayPos start d k) \<and> pieceAt b (rayPos start d k) = None \<and>
          ((\<not> isCapture m \<and> capturedPiece m = None \<and> emptyBetween b start d k) \<or>
           (isCapture m \<and> 2 \<le> k \<and> capturedPiece m = Some (rayPos start d (k - 1)) \<and>
            enemyAt b p (rayPos start d (k - 1)) \<and> emptyBetween b start d (k - 1)))"
      by (rule C)
  qed
qed


theorem king_ray_capture_reach_witness:
  "wf_board flyingBoard \<and> (- 1, 1) \<in> set kingDirections \<and>
   boardAt flyingBoard 7 0 = Some \<lparr>player = Red, type = King\<rparr> \<and>
   emptyBetween flyingBoard (pos 7 0) (- 1, 1) 3 \<and>
   enemyAt flyingBoard Red (rayPos (pos 7 0) (- 1, 1) 3) \<and>
   onGrid (rayPos (pos 7 0) (- 1, 1) 4) \<and>
   pieceAt flyingBoard (rayPos (pos 7 0) (- 1, 1) 4) = None \<and>
   captureMove (pos 7 0) 3 4 (pos 4 3) \<in> set (getValidMoves flyingBoard Red None) \<and>
   captureMove (pos 7 0) 2 5 (pos 4 3) \<notin> set (getValidMoves flyingBoard Red None)"
proof -
  let ?d = "(- 1, 1) :: int \<times> int"
  have wf: "wf_board flyingBoard" by code_simp
  have d: "?d \<in> set kingDirections" by (simp add: kingDirections_def)
  have kg: "boardAt flyingBoard (row (pos 7 0)) (col (pos 7 0)) =
      Some \<lparr>player = Red, type = King\<rparr>" by code_simp
  have r: "rayPos (pos 7 0) ?d 1 = pos 6 1" "rayPos (pos 7 0) ?d 2 = pos 5 2"
     "rayPos (pos 7 0) ?d 3 = pos 4 3" "rayPos (pos 7 0) ?d 4 = pos 3 4"
     "rayPos (pos 7 0) ?d 5 = pos 2 5"
    by (simp_all add: rayPos_def pos_def)
  have sq: "pieceAt flyingBoard (pos 6 1) = None" "pieceAt flyingBoard (pos 5 2) = None"
    "pieceAt flyingBoard (pos 3 4) = None" by code_simp+
  have e: "emptyBetween flyingBoard (pos 7 0) ?d 3"
    unfolding emptyBetween_def
  proof
    fix j :: int assume "j \<in> {1..<3}"
    then have "j = 1 \<or> j = 2" by auto
    then show "pieceAt flyingBoard (rayPos (pos 7 0) ?d j) = None"
      using r sq by auto
  qed
  have en: "enemyAt flyingBoard Red (rayPos (pos 7 0) ?d 3)"
    unfolding r by code_simp
  have g: "onGrid (rayPos (pos 7 0) ?d 4)" unfolding r by code_simp
  have l: "pieceAt flyingBoard (rayPos (pos 7 0) ?d 4) = None" unfolding r by (rule sq)
  from king_ray_capture_reach[OF wf d kg] e en g l
  have c: "captureMove (pos 7 0) (row (rayPos (pos 7 0) ?d 4)) (col (rayPos (pos 7 0) ?d 4))
             (rayPos (pos 7 0) ?d 3) \<in> set (getValidMoves flyingBoard Red None)"
    and n: "\<forall>m \<in> set (getValidMoves flyingBoard Red None). \<forall>k \<ge> 5.
           \<not> (moveFrom m = pos 7 0 \<and> moveTo m = rayPos (pos 7 0) ?d k)"
    by blast+
  from c have c': "captureMove (pos 7 0) 3 4 (pos 4 3) \<in> set (getValidMoves flyingBoard Red None)"
    unfolding r by (simp add: pos_def)
  have "moveFrom (captureMove (pos 7 0) 2 5 (pos 4 3)) = pos 7 0 \<and>
        moveTo (captureMove (pos 7 0) 2 5 (pos 4 3)) = rayPos (pos 7 0) ?d 5"
    unfolding r by (simp add: captureMove_def pos_def)
  with n have n': "captureMove (pos 7 0) 2 5 (pos 4 3) \<notin> set (getValidMoves flyingBoard Red None)"
    by (meson order_refl)
  from kg have kg': "boardAt flyingBoard 7 0 = Some \<lparr>player = Red, type = King\<rparr>"
    by (simp add: pos_def)
  from wf d kg' e en g l c' n' show ?thesis by (intro conjI)
qed

section \<open>Captures lower the piece count\<close>

text \<open>The number of pieces on a board, of both players.\<close>

definition pieceCount :: "BoardState \<Rightarrow> nat" where
  "pieceCount b = length (filter (\<lambda>sq. sq \<noteq> None) (concat b))"

lemma count_update:
  "i < length xs \<Longrightarrow>
   length (filter P (xs[i := v])) + (if P (xs ! i) then 1 else 0) =
   length (filter P xs) + (if P v then 1 else 0)"
proof (induction xs arbitrary: i)
  case Nil
  then show ?case by simp
next
  case (Cons x xs)
  show ?case
  proof (cases i)
    case 0
    then show ?thesis by simp
  next
    case (Suc j)
    with Cons.prems have "j < length xs" by simp
    from Cons.IH[OF this] Suc show ?thesis by simp
  qed
qed

lemma count_concat_update:
  "i < length b \<Longrightarrow>
   length (filter P (concat (b[i := r']))) + length (filter P (b ! i)) =
   length (filter P (concat b)) + length (filter P r')"
proof (induction b arbitrary: i)
  case Nil
  then show ?case by simp
next
  case (Cons x xs)
  show ?case
  proof (cases i)
    case 0
    then show ?thesis by simp
  next
    case (Suc j)
    with Cons.prems have "j < length xs" by simp
    from Cons.IH[OF this] Suc show ?thesis by simp
  qed
qed

lemma boardSet_outside: "\<not> inBoard b r c \<Longrightarrow> boardSet b r c v = b"
  by (auto simp: inBoard_def boardSet_def list_update_beyond)

lemma pieceCount_boardSet:
  assumes inb: "inBoard b r c"
  shows "pieceCount (boardSet b r c v) + (if boardAt b r c \<noteq> None then 1 else 0) =
         pieceCount b + (if v \<noteq> None then 1 else 0)"
proof -
  let ?P = "\<lambda>sq :: Piece option. sq \<noteq> None"
  let ?i = "nat r" and ?j = "nat c"
  from inb have r: "?i < length b" and c: "?j < length (b ! ?i)" and nn: "0 \<le> r" "0 \<le> c"
    by (simp_all add: inBoard_def)
  have at: "boardAt b r c = b ! ?i ! ?j" using inb by (simp add: boardAt_def)
  have set: "boardSet b r c v = b[?i := (b ! ?i)[?j := v]]" using nn by (simp add: boardSet_def)
  from count_concat_update[OF r, of ?P "(b ! ?i)[?j := v]"]
  have 1: "pieceCount (boardSet b r c v) + length (filter ?P (b ! ?i)) =
           pieceCount b + length (filter ?P ((b ! ?i)[?j := v]))"
    unfolding pieceCount_def set .
  from count_update[OF c, of ?P v]
  have 2: "length (filter ?P ((b ! ?i)[?j := v])) + (if boardAt b r c \<noteq> None then 1 else 0) =
           length (filter ?P (b ! ?i)) + (if v \<noteq> None then 1 else 0)"
    unfolding at .
  from 1 2 show ?thesis by linarith
qed

lemma forcedCaptures_mem: "m \<in> set (forcedCaptures ms) \<Longrightarrow> m \<in> set ms"
  using set_forcedCaptures[of ms] by blast

lemma manCapture_cases:
  assumes "m \<in> set (manCapture b start p d)"
  shows "\<exists>q. boardAt b (row start + fst d) (col start + snd d) = Some q \<and> player q \<noteq> p \<and>
     boardAt b (row start + fst d * 2) (col start + snd d * 2) = None \<and>
     m = captureMove start (row start + fst d * 2) (col start + snd d * 2)
           \<lparr>row = row start + fst d, col = col start + snd d\<rparr>"
proof (cases "isValidPos (row start + fst d * 2) (col start + snd d * 2)")
  case False
  with assms show ?thesis unfolding manCapture_def Let_def by simp
next
  case valid: True
  show ?thesis
  proof (cases "boardAt b (row start + fst d) (col start + snd d)")
    case None
    with assms valid show ?thesis unfolding manCapture_def Let_def by simp
  next
    case (Some q)
    show ?thesis
    proof (cases "player q \<noteq> p \<and> boardAt b (row start + fst d * 2) (col start + snd d * 2) = None")
      case True
      with assms valid Some show ?thesis unfolding manCapture_def Let_def by simp
    next
      case False
      with assms valid Some show ?thesis unfolding manCapture_def Let_def by auto
    qed
  qed
qed

lemma manCapture_capture:
  assumes "m \<in> set (manCapture b start p d)"
  shows "moveFrom m = start \<and>
         (\<exists>cp q. capturedPiece m = Some cp \<and> boardAt b (row cp) (col cp) = Some q \<and>
                  player q \<noteq> p) \<and>
         boardAt b (row (moveTo m)) (col (moveTo m)) = None"
proof -
  from manCapture_cases[OF assms] obtain q where
    q: "boardAt b (row start + fst d) (col start + snd d) = Some q" "player q \<noteq> p"
    and e: "boardAt b (row start + fst d * 2) (col start + snd d * 2) = None"
    and m: "m = captureMove start (row start + fst d * 2) (col start + snd d * 2)
           \<lparr>row = row start + fst d, col = col start + snd d\<rparr>"
    by blast
  from m have "moveFrom m = start"
    "capturedPiece m = Some \<lparr>row = row start + fst d, col = col start + snd d\<rparr>"
    "row (moveTo m) = row start + fst d * 2" "col (moveTo m) = col start + snd d * 2"
    by (simp_all add: captureMove_def)
  with q e show ?thesis by simp
qed

lemma manMoves_capture:
  assumes m: "m \<in> set (getManMoves b start p)" and c: "isCapture m"
  shows "moveFrom m = start \<and>
         (\<exists>cp q. capturedPiece m = Some cp \<and> boardAt b (row cp) (col cp) = Some q \<and>
                  player q \<noteq> p) \<and>
         boardAt b (row (moveTo m)) (col (moveTo m)) = None"
proof -
  from m have "(\<exists>d. m \<in> set (manSimpleMove b start d)) \<or> (\<exists>d. m \<in> set (manCapture b start p d))"
    by (auto simp: getManMoves_def)
  then show ?thesis
  proof
    assume "\<exists>d. m \<in> set (manSimpleMove b start d)"
    with c show ?thesis
      by (auto simp: manSimpleMove_def Let_def slideMove_def split: if_splits)
  next
    assume "\<exists>d. m \<in> set (manCapture b start p d)"
    then show ?thesis using manCapture_capture by blast
  qed
qed

lemma kingMoves_capture:
  assumes m: "m \<in> set (getKingMoves b start p)" and c: "isCapture m"
  shows "moveFrom m = start \<and>
         (\<exists>cp q. capturedPiece m = Some cp \<and> boardAt b (row cp) (col cp) = Some q \<and>
                  player q \<noteq> p) \<and>
         boardAt b (row (moveTo m)) (col (moveTo m)) = None"
proof -
  from getKingMoves_ray[OF m] obtain d k where
    s: "rayStepMove b start p (fst d) (snd d) (row start + fst d) (col start + snd d) k m"
    by blast
  let ?r = "row start + fst d" and ?c = "col start + snd d"
  note s' = s[unfolded rayStepMove_def]
  from s' have e: "boardAt b (?r + int k * fst d) (?c + int k * snd d) = None" by (elim conjE)
  from s' have dj:
    "(m = slideMove start (?r + int k * fst d) (?c + int k * snd d) \<and>
      (\<forall>j < k. boardAt b (?r + int j * fst d) (?c + int j * snd d) = None)) \<or>
     (\<exists>k'. k = Suc k' \<and>
        m = captureMove start (?r + int k * fst d) (?c + int k * snd d)
              \<lparr>row = ?r + int k' * fst d, col = ?c + int k' * snd d\<rparr> \<and>
        (\<exists>q. boardAt b (?r + int k' * fst d) (?c + int k' * snd d) = Some q \<and> player q \<noteq> p) \<and>
        (\<forall>j < k'. boardAt b (?r + int j * fst d) (?c + int j * snd d) = None))"
    by (elim conjE)
  from dj show ?thesis
  proof (elim disjE exE conjE)
    assume "m = slideMove start (?r + int k * fst d) (?c + int k * snd d)"
    with c show ?thesis by (simp add: slideMove_def)
  next
    fix k' q
    assume m: "m = captureMove start (?r + int k * fst d) (?c + int k * snd d)
              \<lparr>row = ?r + int k' * fst d, col = ?c + int k' * snd d\<rparr>"
      and q: "boardAt b (?r + int k' * fst d) (?c + int k' * snd d) = Some q" "player q \<noteq> p"
    from m have "moveFrom m = start"
      "capturedPiece m = Some \<lparr>row = ?r + int k' * fst d, col = ?c + int k' * snd d\<rparr>"
      "row (moveTo m) = ?r + int k * fst d" "col (moveTo m) = ?c + int k * snd d"
      by (simp_all add: captureMove_def)
    with q e show ?thesis by simp
  qed
qed

lemma pieceMoves_capture:
  assumes "m \<in> set (getPieceMoves b start piece)" "isCapture m"
  shows "moveFrom m = start \<and>
         (\<exists>cp q. capturedPiece m = Some cp \<and> boardAt b (row cp) (col cp) = Some q \<and>
                  player q \<noteq> player piece) \<and>
         boardAt b (row (moveTo m)) (col (moveTo m)) = None"
  using assms manMoves_capture kingMoves_capture
  by (cases "type piece = Man") (simp_all add: getPieceMoves_def)

text \<open>
  Every capture that \<open>getValidMoves\<close> returns jumps from a piece of the player over an
  enemy piece onto an empty square.
\<close>

lemma getValidMoves_capture:
  assumes m: "m \<in> set (getValidMoves b p a)" and c: "isCapture m"
  shows "\<exists>piece cp q.
           boardAt b (row (moveFrom m)) (col (moveFrom m)) = Some piece \<and> player piece = p \<and>
           capturedPiece m = Some cp \<and> boardAt b (row cp) (col cp) = Some q \<and>
           player q \<noteq> p \<and>
           boardAt b (row (moveTo m)) (col (moveTo m)) = None"
proof -
  have "\<exists>start piece. boardAt b (row start) (col start) = Some piece \<and> player piece = p \<and>
          m \<in> set (getPieceMoves b start piece)"
  proof (cases a)
    case None
    with m have "m \<in> set (forcedCaptures (concat (map (squareMoves b p) allSquares)))"
      by (simp add: getValidMoves_def)
    then have "m \<in> set (concat (map (squareMoves b p) allSquares))"
      by (rule forcedCaptures_mem)
    then obtain sq where sq: "m \<in> set (squareMoves b p sq)" by auto
    show ?thesis
    proof (cases "boardAt b (fst sq) (snd sq)")
      case None
      with sq show ?thesis by (simp add: squareMoves_def)
    next
      case (Some piece)
      with sq have "player piece = p"
        "m \<in> set (getPieceMoves b \<lparr>row = fst sq, col = snd sq\<rparr> piece)"
        by (simp_all add: squareMoves_def split: if_splits)
      with Some show ?thesis
        by (intro exI[of _ "\<lparr>row = fst sq, col = snd sq\<rparr>"] exI[of _ piece]) simp
    qed
  next
    case (Some must)
    with m
    have "m \<in> set (forcedCaptures (case boardAt b (row must) (col must) of None \<Rightarrow> []
                   | Some piece \<Rightarrow> if player piece = p then getPieceMoves b must piece else []))"
      by (simp add: getValidMoves_def)
    then have "m \<in> set (case boardAt b (row must) (col must) of None \<Rightarrow> []
                   | Some piece \<Rightarrow> if player piece = p then getPieceMoves b must piece else [])"
      by (rule forcedCaptures_mem)
    then show ?thesis
    proof (cases "boardAt b (row must) (col must)")
      case None
      assume "m \<in> set (case boardAt b (row must) (col must) of None \<Rightarrow> []
                   | Some piece \<Rightarrow> if player piece = p then getPieceMoves b must piece else [])"
      with None show ?thesis by simp
    next
      case (Some piece)
      assume "m \<in> set (case boardAt b (row must) (col must) of None \<Rightarrow> []
                   | Some piece \<Rightarrow> if player piece = p then getPieceMoves b must piece else [])"
      with Some have "player piece = p" "m \<in> set (getPieceMoves b must piece)"
        by (simp_all split: if_splits)
      with Some show ?thesis by blast
    qed
  qed
  then obtain start piece where pc: "boardAt b (row start) (col start) = Some piece"
    "player piece = p" and mm: "m \<in> set (getPieceMoves b start piece)" by blast
  from pieceMoves_capture[OF mm c] pc show ?thesis by auto
qed

lemma capture_decreases:
  assumes m: "m \<in> set (getValidMoves b p a)" and c: "isCapture m"
    and ex: "executeMove b m = Inr (nb, pr)"
  shows "pieceCount nb < pieceCount b"
proof -
  from getValidMoves_capture[OF m c] obtain piece cp q where
    f: "boardAt b (row (moveFrom m)) (col (moveFrom m)) = Some piece" and pp: "player piece = p"
    and cp: "capturedPiece m = Some cp" and q: "boardAt b (row cp) (col cp) = Some q"
    and qp: "player q \<noteq> p"
    and t: "boardAt b (row (moveTo m)) (col (moveTo m)) = None"
    by blast
  let ?fr = "row (moveFrom m)" and ?fc = "col (moveFrom m)"
  let ?tr = "row (moveTo m)" and ?tc = "col (moveTo m)"
  define piece' where "piece' = (if promotes piece m then piece\<lparr>type := King\<rparr> else piece)"
  define b1 where "b1 = boardSet b ?tr ?tc (Some piece')"
  define b2 where "b2 = boardSet b1 ?fr ?fc None"
  define b3 where "b3 = boardSet b2 (row cp) (col cp) None"
  from ex f cp c have nb: "nb = b3"
    unfolding executeMove_def b3_def b2_def b1_def piece'_def
    by (simp add: Let_def split: if_splits)
  have ne_ft: "\<not> (?fr = ?tr \<and> ?fc = ?tc)" using f t by auto
  have ne_ct: "\<not> (row cp = ?tr \<and> col cp = ?tc)" using q t by auto
  have ne_cf: "\<not> (row cp = ?fr \<and> col cp = ?fc)" using q f qp pp by auto
  have inf: "inBoard b ?fr ?fc" using f by (rule boardAt_Some_inBoard)
  have inc: "inBoard b (row cp) (col cp)" using q by (rule boardAt_Some_inBoard)
  have c1: "pieceCount b1 \<le> pieceCount b + 1"
  proof (cases "inBoard b ?tr ?tc")
    case True
    from pieceCount_boardSet[OF True, of "Some piece'"] t show ?thesis
      unfolding b1_def by simp
  next
    case False
    then show ?thesis unfolding b1_def by (simp add: boardSet_outside)
  qed
  have f1: "boardAt b1 ?fr ?fc = Some piece" and in1: "inBoard b1 ?fr ?fc"
    unfolding b1_def using f ne_ft inf by (auto simp: boardAt_boardSet inBoard_boardSet)
  from pieceCount_boardSet[OF in1, of None] f1
  have c2: "pieceCount b2 + 1 = pieceCount b1" unfolding b2_def by simp
  have q2: "boardAt b2 (row cp) (col cp) = Some q" and in2: "inBoard b2 (row cp) (col cp)"
    unfolding b2_def b1_def using q ne_ct ne_cf inc
    by (auto simp: boardAt_boardSet inBoard_boardSet)
  from pieceCount_boardSet[OF in2, of None] q2
  have c3: "pieceCount b3 + 1 = pieceCount b2" unfolding b3_def by simp
  from c1 c2 c3 nb show ?thesis by simp
qed

section \<open>Minimax (ai.ts)\<close>

text \<open>
  The scores of the search are JavaScript numbers: the integers of the evaluation,
  and \<open>-Infinity\<close> and \<open>Infinity\<close> for the initial bounds. \<open>scoreLe\<close> is \<open><=\<close>,
  \<open>scoreMax\<close> and \<open>scoreMin\<close> are \<open>Math.max\<close> and \<open>Math.min\<close>.
\<close>

datatype score = NegInfinity | Finite int | Infinity

fun scoreLe :: "score \<Rightarrow> score \<Rightarrow> bool" where
  "scoreLe NegInfinity _ = True"
| "scoreLe _ Infinity = True"
| "scoreLe (Finite a) (Finite b) = (a \<le> b)"
| "scoreLe _ _ = False"

definition scoreMax :: "score \<Rightarrow> score \<Rightarrow> score" where
  "scoreMax a b = (if scoreLe a b then b else a)"

definition scoreMin :: "score \<Rightarrow> score \<Rightarrow> score" where
  "scoreMin a b = (if scoreLe a b then a else b)"

text \<open>The other side: \<open>player === Player.Red ? Player.Black : Player.Red\<close>.\<close>

definition opponent :: "Player \<Rightarrow> Player" where
  "opponent p = (if p = Red then Black else Red)"

text \<open>
  The test for a chain jump after a move: the move captured, did not promote, and the
  moved piece has a capture on the new board.
\<close>

definition continuesChain :: "BoardState \<Rightarrow> Player \<Rightarrow> Move \<Rightarrow> bool \<Rightarrow> bool" where
  "continuesChain newBoard currentPlayer move promoted =
     (isCapture move \<and> \<not> promoted \<and>
      list_ex isCapture (getValidMoves newBoard currentPlayer (Some (moveTo move))))"

text \<open>
  \<open>minimax\<close>, with its two \<open>for (const move of validMoves)\<close> loops as \<open>maxLoop\<close> and
  \<open>minLoop\<close>: the loop state is the index \<open>i\<close> of the next move, the running
  \<open>maxEval\<close> (\<open>minEval\<close>) and the bound the loop updates; \<open>break\<close> returns the running
  value. The parameter \<open>player\<close> of the source (the bot's identity) is written
  \<open>botPlayer\<close>. \<open>depth\<close> is a natural number: the source is called with 1 to 4 and
  tests \<open>depth === 0\<close> before it subtracts. An exception of \<open>executeMove\<close> ends the
  search with that error.
\<close>

function minimax ::
    "BoardState \<Rightarrow> nat \<Rightarrow> score \<Rightarrow> score \<Rightarrow> bool \<Rightarrow> Player \<Rightarrow> Position option \<Rightarrow> error + score"
  and maxLoop ::
    "BoardState \<Rightarrow> nat \<Rightarrow> score \<Rightarrow> score \<Rightarrow> Player \<Rightarrow> Position option \<Rightarrow> nat \<Rightarrow> score
     \<Rightarrow> error + score"
  and minLoop ::
    "BoardState \<Rightarrow> nat \<Rightarrow> score \<Rightarrow> score \<Rightarrow> Player \<Rightarrow> Position option \<Rightarrow> nat \<Rightarrow> score
     \<Rightarrow> error + score"
where
  "minimax board depth alpha beta maximizingPlayer botPlayer activePiece =
     (if depth = 0 \<or> checkWinner board \<noteq> None then Inr (Finite (evaluateBoard board botPlayer))
      else
        (let currentPlayer = (if maximizingPlayer then botPlayer else opponent botPlayer);
             validMoves = getValidMoves board currentPlayer activePiece in
         if length validMoves = 0 then
           Inr (Finite (if maximizingPlayer then - SCORES_WIN else SCORES_WIN))
         else if maximizingPlayer then
           maxLoop board depth alpha beta botPlayer activePiece 0 NegInfinity
         else
           minLoop board depth alpha beta botPlayer activePiece 0 Infinity))"
| "maxLoop board depth alpha beta botPlayer activePiece i maxEval =
     (let validMoves = getValidMoves board botPlayer activePiece in
      if i < length validMoves then
        (let move = validMoves ! i in
         case executeMove board move of
           Inl e \<Rightarrow> Inl e
         | Inr (newBoard, promoted) \<Rightarrow>
             (case (if continuesChain newBoard botPlayer move promoted
                    then minimax newBoard depth alpha beta True botPlayer (Some (moveTo move))
                    else minimax newBoard (depth - 1) alpha beta False botPlayer None) of
                Inl e \<Rightarrow> Inl e
              | Inr evalScore \<Rightarrow>
                  (let maxEval' = scoreMax maxEval evalScore;
                       alpha' = scoreMax alpha evalScore in
                   if scoreLe beta alpha' then Inr maxEval'
                   else maxLoop board depth alpha' beta botPlayer activePiece (i + 1) maxEval')))
      else Inr maxEval)"
| "minLoop board depth alpha beta botPlayer activePiece i minEval =
     (let validMoves = getValidMoves board (opponent botPlayer) activePiece in
      if i < length validMoves then
        (let move = validMoves ! i in
         case executeMove board move of
           Inl e \<Rightarrow> Inl e
         | Inr (newBoard, promoted) \<Rightarrow>
             (case (if continuesChain newBoard (opponent botPlayer) move promoted
                    then minimax newBoard depth alpha beta False botPlayer (Some (moveTo move))
                    else minimax newBoard (depth - 1) alpha beta True botPlayer None) of
                Inl e \<Rightarrow> Inl e
              | Inr evalScore \<Rightarrow>
                  (let minEval' = scoreMin minEval evalScore;
                       beta' = scoreMin beta evalScore in
                   if scoreLe beta' alpha then Inr minEval'
                   else minLoop board depth alpha beta' botPlayer activePiece (i + 1) minEval')))
      else Inr minEval)"
  by pat_completeness auto

text \<open>
  The measure of the recursion: the depth, then the number of pieces, then the moves
  the loop has still to visit. A call at depth 0 makes no further call.
\<close>

definition minimaxMeasure ::
  "(BoardState \<times> nat \<times> score \<times> score \<times> bool \<times> Player \<times> Position option) +
   (BoardState \<times> nat \<times> score \<times> score \<times> Player \<times> Position option \<times> nat \<times> score) +
   (BoardState \<times> nat \<times> score \<times> score \<times> Player \<times> Position option \<times> nat \<times> score)
   \<Rightarrow> nat \<times> nat \<times> nat" where
  "minimaxMeasure x =
     (case x of
        Inl (board, depth, alpha, beta, maximizingPlayer, botPlayer, activePiece) \<Rightarrow>
          if depth = 0 then (0, 0, 0)
          else (depth, pieceCount board + 1,
                length (getValidMoves board
                          (if maximizingPlayer then botPlayer else opponent botPlayer)
                          activePiece) + 1)
      | Inr (Inl (board, depth, alpha, beta, botPlayer, activePiece, i, maxEval)) \<Rightarrow>
          (depth, pieceCount board + 1,
           length (getValidMoves board botPlayer activePiece) - i)
      | Inr (Inr (board, depth, alpha, beta, botPlayer, activePiece, i, minEval)) \<Rightarrow>
          (depth, pieceCount board + 1,
           length (getValidMoves board (opponent botPlayer) activePiece) - i))"

lemma chain_decreases:
  assumes "i < length (getValidMoves board p a)"
    and "executeMove board (getValidMoves board p a ! i) = Inr (nb, pr)"
    and "continuesChain nb p (getValidMoves board p a ! i) pr"
  shows "pieceCount nb < pieceCount board"
proof -
  from assms(1) have "getValidMoves board p a ! i \<in> set (getValidMoves board p a)" by simp
  moreover from assms(3) have "isCapture (getValidMoves board p a ! i)"
    by (simp add: continuesChain_def)
  ultimately show ?thesis using assms(2) by (rule capture_decreases)
qed

lemma minimax_total: "minimax_maxLoop_minLoop_dom x"
proof -
  have "All minimax_maxLoop_minLoop_dom"
  proof (rule "minimax_maxLoop_minLoop.termination"
      [of "inv_image (less_than <*lex*> less_than <*lex*> less_than) minimaxMeasure"])
    show "wf (inv_image (less_than <*lex*> less_than <*lex*> less_than) minimaxMeasure)"
      by (intro wf_inv_image wf_lex_prod wf_less_than)
  qed (auto simp: minimaxMeasure_def dest: chain_decreases)
  then show ?thesis by simp
qed

termination minimax
  using minimax_total by blast

text \<open>
  A Red man on (5,3) that captures the Black man on (4,2), lands on (3,1) and can
  capture the Black man on (2,2) from there; and the board after the first capture.
\<close>

definition chainBoard :: BoardState where
  "chainBoard = place (place (place emptyBoard 4 2 Black Man) 2 2 Black Man) 5 3 Red Man"

definition chainBoardAfter :: BoardState where
  "chainBoardAfter = place (place emptyBoard 2 2 Black Man) 3 1 Red Man"

text \<open>
  Claim C6. \<open>minimax\<close> terminates for every board, depth, bounds, maximizing flag,
  bot identity and active piece: the call is in the domain of the function, that is,
  the tree of its recursive calls is well-founded. A recursive call that keeps the
  depth is made only after a move of \<open>getValidMoves\<close> for which \<open>continuesChain\<close>
  holds, which is a capture, and the board it returns has strictly fewer pieces.
\<close>

theorem minimax_terminates:
  "minimax_maxLoop_minLoop_dom
     (Inl (board, depth, alpha, beta, maximizingPlayer, botPlayer, activePiece)) \<and>
   (\<forall>m \<in> set (getValidMoves board currentPlayer activePiece). \<forall>newBoard promoted.
      executeMove board m = Inr (newBoard, promoted) \<and>
      continuesChain newBoard currentPlayer m promoted \<longrightarrow>
        pieceCount newBoard < pieceCount board)"
proof (intro conjI ballI allI impI)
  show "minimax_maxLoop_minLoop_dom
     (Inl (board, depth, alpha, beta, maximizingPlayer, botPlayer, activePiece))"
    by (rule minimax_total)
next
  fix m newBoard promoted
  assume m: "m \<in> set (getValidMoves board currentPlayer activePiece)"
    and e: "executeMove board m = Inr (newBoard, promoted) \<and>
      continuesChain newBoard currentPlayer m promoted"
  then have "isCapture m" by (simp add: continuesChain_def)
  with m e show "pieceCount newBoard < pieceCount board"
    using capture_decreases by blast
qed

theorem minimax_terminates_witness:
  "minimax_maxLoop_minLoop_dom (Inl (chainBoard, 2, NegInfinity, Infinity, True, Red, None)) \<and>
   getValidMoves chainBoard Red None = [captureMove (pos 5 3) 3 1 (pos 4 2)] \<and>
   executeMove chainBoard (captureMove (pos 5 3) 3 1 (pos 4 2)) = Inr (chainBoardAfter, False) \<and>
   continuesChain chainBoardAfter Red (captureMove (pos 5 3) 3 1 (pos 4 2)) False \<and>
   pieceCount chainBoard = 3 \<and> pieceCount chainBoardAfter = 2 \<and>
   pieceCount chainBoardAfter < pieceCount chainBoard"
proof -
  let ?m = "captureMove (pos 5 3) 3 1 (pos 4 2)"
  have g: "getValidMoves chainBoard Red None = [?m]" by code_simp
  have e: "executeMove chainBoard ?m = Inr (chainBoardAfter, False)" by code_simp
  have c: "continuesChain chainBoardAfter Red ?m False" by code_simp
  have n: "pieceCount chainBoard = 3" "pieceCount chainBoardAfter = 2" by code_simp+
  from g have mem: "?m \<in> set (getValidMoves chainBoard Red None)" by simp
  from minimax_terminates[of chainBoard 2 NegInfinity Infinity True Red None Red]
  have d: "minimax_maxLoop_minLoop_dom (Inl (chainBoard, 2, NegInfinity, Infinity, True, Red, None))"
    and dec: "\<forall>m \<in> set (getValidMoves chainBoard Red None). \<forall>newBoard promoted.
      executeMove chainBoard m = Inr (newBoard, promoted) \<and>
      continuesChain newBoard Red m promoted \<longrightarrow>
        pieceCount newBoard < pieceCount chainBoard"
    by blast+
  from dec mem e c have "pieceCount chainBoardAfter < pieceCount chainBoard" by blast
  with d g e c n show ?thesis by (intro conjI)
qed

section \<open>Bot move selection (ai.ts)\<close>

text \<open>
  The score \<open>evalScore\<close> that the root loop of \<open>getBotMove\<close> computes for a move.
\<close>

definition rootEval :: "BoardState \<Rightarrow> Player \<Rightarrow> nat \<Rightarrow> Move \<Rightarrow> error + score" where
  "rootEval board botPlayer depth move =
     (case executeMove board move of
        Inl e \<Rightarrow> Inl e
      | Inr (newBoard, promoted) \<Rightarrow>
          if continuesChain newBoard botPlayer move promoted
          then minimax newBoard depth NegInfinity Infinity True botPlayer (Some (moveTo move))
          else minimax newBoard (depth - 1) NegInfinity Infinity False botPlayer None)"

text \<open>
  The loop \<open>for (const move of shuffledMoves)\<close>, on the rest of the list, with the
  running \<open>bestMove\<close> and \<open>maxEval\<close>; \<open>evalScore > maxEval\<close> is the negation of
  \<open>scoreLe\<close>.
\<close>

fun rootLoop ::
  "BoardState \<Rightarrow> Player \<Rightarrow> nat \<Rightarrow> Move list \<Rightarrow> Move \<Rightarrow> score \<Rightarrow> error + Move" where
  "rootLoop board botPlayer depth [] bestMove maxEval = Inr bestMove"
| "rootLoop board botPlayer depth (move # rest) bestMove maxEval =
     (case rootEval board botPlayer depth move of
        Inl e \<Rightarrow> Inl e
      | Inr evalScore \<Rightarrow>
          if \<not> scoreLe evalScore maxEval
          then rootLoop board botPlayer depth rest move evalScore
          else rootLoop board botPlayer depth rest bestMove maxEval)"

text \<open>
  The numbers of the Easy branch. \<open>Math.random()\<close> returns a Number, an IEEE 754
  double, at least 0 and less than 1. A finite double that is not negative is
  \<open>mantissa * 2^exponent\<close> with a mantissa below \<open>2^53\<close> and an exponent from
  \<open>-1074\<close> to \<open>971\<close>; \<open>doubleVal\<close> is the real number it denotes.
\<close>

record double =
  mantissa :: int
  exponent :: int

definition isDouble :: "double \<Rightarrow> bool" where
  "isDouble x =
     (0 \<le> mantissa x \<and> mantissa x < 2 ^ 53 \<and> - 1074 \<le> exponent x \<and> exponent x \<le> 971)"

definition pow2 :: "int \<Rightarrow> real" where
  "pow2 e = (if 0 \<le> e then 2 ^ nat e else 1 / 2 ^ nat (- e))"

definition doubleVal :: "double \<Rightarrow> real" where
  "doubleVal x = real_of_int (mantissa x) * pow2 (exponent x)"

text \<open>
  The product \<open>Math.random() * validMoves.length\<close> is a product of doubles: the exact
  product, rounded to the nearest double, a tie to the one with the even mantissa.
  The length of an array is an integer below \<open>2^32\<close>, a double as it stands, so
  the exact product of \<open>m * 2^e\<close> with the length \<open>n\<close> is \<open>(m * n) * 2^e\<close>.
  \<open>bitLength\<close> is the number of binary digits of an integer; \<open>roundHalfEven n s\<close>
  is \<open>n / 2^s\<close> rounded to the nearest integer, a tie to the even one;
  \<open>roundDouble n e\<close> rounds \<open>n * 2^e\<close> to 53 significant binary digits. (With an
  exponent \<open>e\<close> of at least \<open>-1074\<close> the result has one too, so no digit is lost
  to a subnormal result; a mantissa that the rounding carries to \<open>2^53\<close> is the
  double \<open>2^52 * 2^(e + 1)\<close>, of the same value.)
\<close>

function bitLength :: "int \<Rightarrow> nat" where
  "bitLength n = (if n \<le> 0 then 0 else Suc (bitLength (n div 2)))"
  by pat_completeness auto
termination
  by (relation "measure nat") auto

declare bitLength.simps [simp del]

definition roundHalfEven :: "int \<Rightarrow> nat \<Rightarrow> int" where
  "roundHalfEven n s =
     (let q = n div 2 ^ s; r = n mod 2 ^ s in
      if 2 * r < 2 ^ s then q
      else if 2 ^ s < 2 * r then q + 1
      else if even q then q else q + 1)"

definition roundDouble :: "int \<Rightarrow> int \<Rightarrow> double" where
  "roundDouble n e =
     (let s = bitLength n - 53 in \<lparr>mantissa = roundHalfEven n s, exponent = e + int s\<rparr>)"

definition timesLength :: "double \<Rightarrow> nat \<Rightarrow> double" where
  "timesLength x n = roundDouble (mantissa x * int n) (exponent x)"

text \<open>\<open>Math.floor\<close> of a double that is not negative.\<close>

definition mathFloor :: "double \<Rightarrow> int" where
  "mathFloor x =
     (if 0 \<le> exponent x then mantissa x * 2 ^ nat (exponent x)
      else mantissa x div 2 ^ nat (- exponent x))"

text \<open>
  \<open>getBotMove\<close> calls \<open>Math.random\<close>; what it draws is an input of the model.
  \<open>random\<close> is the double that \<open>Math.random()\<close> returns in the Easy branch.
  \<open>sortShuffle\<close> is what \<open>validMoves.sort(() => Math.random() - 0.5)\<close> makes of the
  list: the order depends on the engine's sorting algorithm and on the draws of the
  comparator, and is some rearrangement of the list. \<open>bestMove\<close> starts as the first
  move of the list before it is sorted. An index outside the list reads
  \<open>undefined\<close>, written \<open>None\<close>.
\<close>

definition getBotMove ::
  "double \<Rightarrow> (Move list \<Rightarrow> Move list) \<Rightarrow> BoardState \<Rightarrow> Player \<Rightarrow> Difficulty \<Rightarrow> Position option
   \<Rightarrow> error + Move option" where
  "getBotMove random sortShuffle board botPlayer difficulty activePiece =
     (let validMoves = getValidMoves board botPlayer activePiece in
      if length validMoves = 0 then Inr None
      else if difficulty = Easy then
        (let randomIndex = nat (mathFloor (timesLength random (length validMoves))) in
         if randomIndex < length validMoves then Inr (Some (validMoves ! randomIndex))
         else Inr None)
      else
        (let depth = (if difficulty = Medium then 2 else 4);
             bestMove = validMoves ! 0;
             shuffledMoves = sortShuffle validMoves in
         case rootLoop board botPlayer depth shuffledMoves bestMove NegInfinity of
           Inl e \<Rightarrow> Inl e
         | Inr best \<Rightarrow> Inr (Some best)))"

text \<open>The draws \<open>0\<close>, \<open>1/2\<close> and \<open>2573485501354569 / 2^52\<close> (a little below 4/7).\<close>

definition drawZero :: double where
  "drawZero = \<lparr>mantissa = 0, exponent = 0\<rparr>"

definition drawHalf :: double where
  "drawHalf = \<lparr>mantissa = 1, exponent = - 1\<rparr>"

definition drawFourSevenths :: double where
  "drawFourSevenths = \<lparr>mantissa = 2573485501354569, exponent = - 52\<rparr>"

text \<open>
  A Red man on (5,1) with a Black man on (3,1): the slide to (4,2) loses the man at
  once, the slide to (4,0) does not.
\<close>

definition forkBoard :: BoardState where
  "forkBoard = place (place emptyBoard 3 1 Black Man) 5 1 Red Man"

text \<open>One move scores strictly higher than every other move of the list.\<close>

definition strictlyBest :: "BoardState \<Rightarrow> Player \<Rightarrow> nat \<Rightarrow> Move list \<Rightarrow> Move \<Rightarrow> score \<Rightarrow> bool" where
  "strictlyBest board botPlayer depth moves best bestScore =
     (best \<in> set moves \<and> rootEval board botPlayer depth best = Inr bestScore \<and>
      (\<forall>m \<in> set moves. m \<noteq> best \<longrightarrow>
         (\<exists>v. rootEval board botPlayer depth m = Inr v \<and> \<not> scoreLe bestScore v)))"


lemma scoreLe_refl: "scoreLe a a"
  by (cases a) simp_all

lemma scoreLe_total: "scoreLe a b \<or> scoreLe b a"
  by (cases a; cases b) auto

lemma scoreLe_trans: "scoreLe a b \<Longrightarrow> scoreLe b c \<Longrightarrow> scoreLe a c"
  by (cases a; cases b; cases c) auto

lemma rootLoop_member:
  "rootLoop board botPlayer depth xs cur s = Inr m \<Longrightarrow> m = cur \<or> m \<in> set xs"
proof (induction xs arbitrary: cur s)
  case Nil
  then show ?case by simp
next
  case (Cons x xs)
  show ?case
  proof (cases "rootEval board botPlayer depth x")
    case (Inl e)
    with Cons.prems show ?thesis by simp
  next
    case (Inr v)
    show ?thesis
    proof (cases "scoreLe v s")
      case True
      with Cons.prems Inr have "rootLoop board botPlayer depth xs cur s = Inr m" by simp
      from Cons.IH[OF this] show ?thesis by auto
    next
      case False
      with Cons.prems Inr have "rootLoop board botPlayer depth xs x v = Inr m" by simp
      from Cons.IH[OF this] show ?thesis by auto
    qed
  qed
qed


lemma rootLoop_holds_best:
  assumes ev: "rootEval board botPlayer depth best = Inr sb"
    and others: "\<forall>m \<in> set xs. m \<noteq> best \<longrightarrow>
         (\<exists>v. rootEval board botPlayer depth m = Inr v \<and> \<not> scoreLe sb v)"
    and ge: "scoreLe sb s"
  shows "rootLoop board botPlayer depth xs best s = Inr best"
  using others ge
proof (induction xs arbitrary: s)
  case Nil
  then show ?case by simp
next
  case (Cons x xs)
  from Cons.prems(1) have rest: "\<forall>m \<in> set xs. m \<noteq> best \<longrightarrow>
         (\<exists>v. rootEval board botPlayer depth m = Inr v \<and> \<not> scoreLe sb v)" by simp
  show ?case
  proof (cases "x = best")
    case True
    show ?thesis
    proof (cases "scoreLe sb s")
      case True
      with \<open>x = best\<close> ev Cons.IH[OF rest True] show ?thesis by simp
    next
      case False
      with Cons.prems(2) show ?thesis by simp
    qed
  next
    case False
    with Cons.prems(1) obtain v where v: "rootEval board botPlayer depth x = Inr v"
      "\<not> scoreLe sb v" by auto
    have "scoreLe v s"
    proof (rule ccontr)
      assume "\<not> scoreLe v s"
      with scoreLe_total[of v s] have "scoreLe s v" by simp
      with Cons.prems(2) have "scoreLe sb v" by (rule scoreLe_trans)
      with v(2) show False ..
    qed
    with v Cons.IH[OF rest Cons.prems(2)] show ?thesis by simp
  qed
qed

lemma rootLoop_finds_best:
  assumes ev: "rootEval board botPlayer depth best = Inr sb"
    and others: "\<forall>m \<in> set xs. m \<noteq> best \<longrightarrow>
         (\<exists>v. rootEval board botPlayer depth m = Inr v \<and> \<not> scoreLe sb v)"
    and mem: "best \<in> set xs"
    and lt: "\<not> scoreLe sb s"
  shows "rootLoop board botPlayer depth xs cur s = Inr best"
  using others mem lt
proof (induction xs arbitrary: cur s)
  case Nil
  then show ?case by simp
next
  case (Cons x xs)
  from Cons.prems(1) have rest: "\<forall>m \<in> set xs. m \<noteq> best \<longrightarrow>
         (\<exists>v. rootEval board botPlayer depth m = Inr v \<and> \<not> scoreLe sb v)" by simp
  show ?case
  proof (cases "x = best")
    case True
    from rootLoop_holds_best[OF ev rest scoreLe_refl]
    have "rootLoop board botPlayer depth xs best sb = Inr best" .
    with True ev Cons.prems(3) show ?thesis by simp
  next
    case False
    with Cons.prems(1) obtain v where v: "rootEval board botPlayer depth x = Inr v"
      "\<not> scoreLe sb v" by auto
    from False Cons.prems(2) have mem': "best \<in> set xs" by simp
    show ?thesis
    proof (cases "scoreLe v s")
      case True
      with v Cons.IH[OF rest mem' Cons.prems(3)] show ?thesis by simp
    next
      case False
      with v Cons.IH[OF rest mem' v(2)] show ?thesis by simp
    qed
  qed
qed

subsection \<open>The index of the Easy branch\<close>

lemma bitLength_upper: "n < 2 ^ bitLength n"
proof (induction n rule: bitLength.induct)
  case (1 n)
  show ?case
  proof (cases "n \<le> 0")
    case True
    then have "n < 1" by simp
    also have "(1::int) \<le> 2 ^ bitLength n" by simp
    finally show ?thesis .
  next
    case False
    from 1[OF False] have "n div 2 < 2 ^ bitLength (n div 2)" .
    then have "n < 2 * 2 ^ bitLength (n div 2)" by linarith
    with False show ?thesis by (subst bitLength.simps) simp
  qed
qed

lemma bitLength_lower: "0 < n \<Longrightarrow> 2 ^ (bitLength n - 1) \<le> n"
proof (induction n rule: bitLength.induct)
  case (1 n)
  from "1.prems" have ne: "\<not> n \<le> 0" by simp
  show ?case
  proof (cases "n div 2 \<le> 0")
    case True
    then have "bitLength (n div 2) = 0" by (simp add: bitLength.simps)
    with ne have "bitLength n = 1" by (subst bitLength.simps) simp
    with "1.prems" show ?thesis by simp
  next
    case False
    then have pos: "0 < n div 2" by simp
    from "1.IH"[OF ne pos] have ih: "2 ^ (bitLength (n div 2) - 1) \<le> n div 2" .
    from False have "bitLength (n div 2) \<noteq> 0" by (subst bitLength.simps) simp
    then obtain k where k: "bitLength (n div 2) = Suc k" by (cases "bitLength (n div 2)") simp_all
    from ne have bl: "bitLength n = Suc (Suc k)" by (subst bitLength.simps) (simp add: k)
    from ih k have "2 ^ k \<le> n div 2" by simp
    then have "2 * 2 ^ k \<le> n" by linarith
    with bl show ?thesis by simp
  qed
qed

lemma bitLength_zero: "n \<le> 0 \<Longrightarrow> bitLength n = 0"
  by (simp add: bitLength.simps)

lemma roundHalfEven_upper: "2 * (roundHalfEven n s * 2 ^ s) \<le> 2 * n + 2 ^ s"
proof -
  define k :: int where "k = 2 ^ s"
  define q where "q = n div k"
  define r where "r = n mod k"
  have kpos: "0 < k" by (simp add: k_def)
  have n: "n = q * k + r" by (simp add: q_def r_def)
  have rh: "roundHalfEven n s =
      (if 2 * r < k then q else if k < 2 * r then q + 1 else if even q then q else q + 1)"
    by (simp add: roundHalfEven_def Let_def k_def q_def r_def)
  have le: "roundHalfEven n s \<le> q + 1" by (simp add: rh)
  have ex: "(q + 1) * k = q * k + k" by (simp add: algebra_simps)
  show ?thesis
  proof (cases "2 * r < k")
    case True
    with rh have "roundHalfEven n s * k = q * k" by simp
    moreover have "0 \<le> r" using kpos by (simp add: r_def)
    ultimately show ?thesis using n kpos unfolding k_def[symmetric] by linarith
  next
    case False
    from le kpos have "roundHalfEven n s * k \<le> (q + 1) * k" by (simp add: mult_right_mono)
    with ex have "roundHalfEven n s * k \<le> q * k + k" by simp
    with False n show ?thesis unfolding k_def[symmetric] by linarith
  qed
qed

lemma roundHalfEven_zero: "roundHalfEven n 0 = n"
  by (simp add: roundHalfEven_def)

lemma roundHalfEven_cases: "roundHalfEven n s = n div 2 ^ s \<or> roundHalfEven n s = n div 2 ^ s + 1"
  by (simp add: roundHalfEven_def Let_def)


lemma unit_double:
  assumes u: "doubleVal x < 1" and pos: "0 < mantissa x"
  shows "exponent x < 0 \<and> mantissa x < 2 ^ nat (- exponent x)"
proof (cases "0 \<le> exponent x")
  case True
  from pos have "1 \<le> real_of_int (mantissa x)" by simp
  moreover have "(1::real) \<le> 2 ^ nat (exponent x)" by simp
  ultimately have "1 * 1 \<le> real_of_int (mantissa x) * 2 ^ nat (exponent x)"
    by (intro mult_mono) simp_all
  with u True show ?thesis by (simp add: doubleVal_def pow2_def)
next
  case False
  with u have "real_of_int (mantissa x) / 2 ^ nat (- exponent x) < 1"
    by (simp add: doubleVal_def pow2_def)
  then have "real_of_int (mantissa x) < 2 ^ nat (- exponent x)"
    by (simp add: divide_less_eq)
  then have "mantissa x < 2 ^ nat (- exponent x)" by simp
  with False show ?thesis by simp
qed

lemma int_div_less:
  fixes a b k :: int
  assumes "0 < k" "a < b * k"
  shows "a div k < b"
proof -
  have "a = a div k * k + a mod k" by simp
  moreover have "0 \<le> a mod k" using assms(1) by simp
  ultimately have "a div k * k \<le> a" by linarith
  with assms(2) have "a div k * k < b * k" by linarith
  with assms(1) show ?thesis by (simp add: mult_less_cancel_right)
qed

lemma roundHalfEven_nonneg: "0 \<le> n \<Longrightarrow> 0 \<le> roundHalfEven n s"
  using roundHalfEven_cases[of n s] by (auto simp: pos_imp_zdiv_nonneg_iff)

lemma timesLength_key:
  assumes d: "isDouble x" and u: "doubleVal x < 1" and pos: "0 < mantissa x" and n: "0 < n"
  shows "roundHalfEven (mantissa x * int n) (bitLength (mantissa x * int n) - 53)
           * 2 ^ (bitLength (mantissa x * int n) - 53)
         < int n * 2 ^ nat (- exponent x)"
proof -
  define m where "m = mantissa x"
  define N where "N = int n"
  define f where "f = nat (- exponent x)"
  define M where "M = m * N"
  define s where "s = bitLength M - 53"
  define R where "R = roundHalfEven M s"
  define F :: int where "F = 2 ^ f"
  define S :: int where "S = 2 ^ s"
  from n have Npos: "0 < N" by (simp add: N_def)
  from pos have mpos: "0 < m" by (simp add: m_def)
  from unit_double[OF u pos] have mF: "m < F" by (simp add: m_def f_def F_def)
  from d have m53: "m < 2 ^ 53" by (simp add: isDouble_def m_def)
  from mF have "m + 1 \<le> F" by simp
  with Npos have "(m + 1) * N \<le> F * N" by (simp add: mult_right_mono)
  then have MN: "M + N \<le> N * F" by (simp add: M_def algebra_simps)
  from mpos Npos have Mpos: "0 < M" by (simp add: M_def)
  have key: "R * S < N * F"
  proof (cases "s = 0")
    case True
    then have "R = M" "S = 1" by (simp_all add: R_def S_def roundHalfEven_zero)
    with MN Npos show ?thesis by simp
  next
    case False
    then have bl: "bitLength M - 1 = 52 + s" by (simp add: s_def)
    from bitLength_lower[OF Mpos] bl have "(2::int) ^ (52 + s) \<le> M" by simp
    then have lo: "2 ^ 52 * S \<le> M" by (simp add: power_add S_def)
    from m53 Npos have "m * N < 2 ^ 53 * N" by (simp add: mult_strict_right_mono)
    then have hi: "M < 2 ^ 52 * (2 * N)" by (simp add: M_def)
    from lo hi have "(2::int) ^ 52 * S < 2 ^ 52 * (2 * N)" by linarith
    then have SN: "S < 2 * N" by simp
    from roundHalfEven_upper[of M s] have "2 * (R * S) \<le> 2 * M + S"
      by (simp add: R_def S_def)
    with SN MN show ?thesis by linarith
  qed
  then show ?thesis
    unfolding R_def S_def s_def M_def m_def N_def F_def f_def .
qed

lemma randomIndex_bound:
  assumes d: "isDouble x" and u: "doubleVal x < 1" and n: "0 < n"
  shows "0 \<le> mathFloor (timesLength x n) \<and> mathFloor (timesLength x n) < int n"
proof -
  define M where "M = mantissa x * int n"
  define s where "s = bitLength M - 53"
  define R where "R = roundHalfEven M s"
  define f where "f = nat (- exponent x)"
  from d have m0: "0 \<le> mantissa x" by (simp add: isDouble_def)
  then have M0: "0 \<le> M" by (simp add: M_def)
  then have R0: "0 \<le> R" unfolding R_def by (rule roundHalfEven_nonneg)
  have tl: "timesLength x n = \<lparr>mantissa = R, exponent = exponent x + int s\<rparr>"
    by (simp add: timesLength_def roundDouble_def Let_def R_def s_def M_def)
  have fl: "mathFloor (timesLength x n) =
      (if 0 \<le> exponent x + int s then R * 2 ^ nat (exponent x + int s)
       else R div 2 ^ nat (- (exponent x + int s)))"
    by (simp add: tl mathFloor_def)
  have nonneg: "0 \<le> mathFloor (timesLength x n)"
    using R0 by (simp add: fl pos_imp_zdiv_nonneg_iff)
  have less: "mathFloor (timesLength x n) < int n"
  proof (cases "mantissa x = 0")
    case True
    then have "M = 0" by (simp add: M_def)
    then have "s = 0" "R = 0" by (simp_all add: s_def R_def bitLength_zero roundHalfEven_zero)
    with n show ?thesis by (simp add: fl)
  next
    case False
    with m0 have pos: "0 < mantissa x" by simp
    from unit_double[OF u pos] have eneg: "exponent x < 0" by simp
    from timesLength_key[OF d u pos n] have key: "R * 2 ^ s < int n * 2 ^ f"
      by (simp add: R_def s_def M_def f_def)
    show ?thesis
    proof (cases "0 \<le> exponent x + int s")
      case True
      with eneg have sf: "s = nat (exponent x + int s) + f" by (simp add: f_def)
      define t where "t = nat (exponent x + int s)"
      from sf have "(2::int) ^ s = 2 ^ t * 2 ^ f" by (simp add: t_def power_add[symmetric])
      with key have "(R * 2 ^ t) * 2 ^ f < int n * 2 ^ f" by (simp add: mult.assoc)
      then have "R * 2 ^ t < int n" by (simp add: mult_less_cancel_right)
      with True show ?thesis by (simp add: fl t_def)
    next
      case False
      define t where "t = nat (- (exponent x + int s))"
      from False eneg have fs: "f = t + s" by (simp add: f_def t_def)
      then have "(2::int) ^ f = 2 ^ t * 2 ^ s" by (simp add: power_add)
      with key have "R * 2 ^ s < (int n * 2 ^ t) * 2 ^ s" by (simp add: mult.assoc)
      then have "R < int n * 2 ^ t" by (simp add: mult_less_cancel_right)
      then have "R div 2 ^ t < int n" by (intro int_div_less) simp_all
      with False show ?thesis by (simp add: fl t_def)
    qed
  qed
  from nonneg less show ?thesis ..
qed

lemma int_div_succ:
  fixes q k :: int
  assumes "0 < k"
  shows "(q + 1) div k = q div k \<or> (q + 1) div k = q div k + 1"
proof -
  have q: "q = k * (q div k) + q mod k" by simp
  have r: "0 \<le> q mod k" "q mod k < k" using assms by simp_all
  show ?thesis
  proof (cases "q mod k + 1 < k")
    case True
    have "q + 1 = k * (q div k) + (q mod k + 1)" using q by linarith
    from int_div_pos_eq[OF this _ True] r have "(q + 1) div k = q div k" by simp
    then show ?thesis by simp
  next
    case False
    with r have e: "q mod k + 1 = k" by linarith
    have "q + 1 = k * (q div k) + (q mod k + 1)" using q by linarith
    then have "q + 1 = k * (q div k + 1) + 0" unfolding e by (simp add: algebra_simps)
    from int_div_pos_eq[OF this _ assms] have "(q + 1) div k = q div k + 1" by simp
    then show ?thesis by simp
  qed
qed

lemma floor_doubleVal:
  assumes e: "exponent x < 0"
  shows "\<lfloor>doubleVal x * real n\<rfloor> = (mantissa x * int n) div 2 ^ nat (- exponent x)"
proof -
  have "doubleVal x * real n =
        real_of_int (mantissa x * int n) / real_of_int (2 ^ nat (- exponent x))"
    using e by (simp add: doubleVal_def pow2_def)
  then show ?thesis by (simp only: floor_divide_of_int_eq)
qed

text \<open>
  The index is the floor of the exact product or, when the double product rounds up
  to the next integer, that integer.
\<close>

lemma randomIndex_floor:
  assumes d: "isDouble x" and u: "doubleVal x < 1" and n: "0 < n" and nb: "int n \<le> 2 ^ 53"
  shows "mathFloor (timesLength x n) = \<lfloor>doubleVal x * real n\<rfloor> \<or>
         mathFloor (timesLength x n) = \<lfloor>doubleVal x * real n\<rfloor> + 1"
proof -
  define M where "M = mantissa x * int n"
  define s where "s = bitLength M - 53"
  define R where "R = roundHalfEven M s"
  define f where "f = nat (- exponent x)"
  from d have m0: "0 \<le> mantissa x" by (simp add: isDouble_def)
  have tl: "timesLength x n = \<lparr>mantissa = R, exponent = exponent x + int s\<rparr>"
    by (simp add: timesLength_def roundDouble_def Let_def R_def s_def M_def)
  have fl: "mathFloor (timesLength x n) =
      (if 0 \<le> exponent x + int s then R * 2 ^ nat (exponent x + int s)
       else R div 2 ^ nat (- (exponent x + int s)))"
    by (simp add: tl mathFloor_def)
  show ?thesis
  proof (cases "mantissa x = 0")
    case True
    then have "M = 0" by (simp add: M_def)
    then have "s = 0" "R = 0" by (simp_all add: s_def R_def bitLength_zero roundHalfEven_zero)
    moreover from True have z: "doubleVal x * real n = 0" by (simp add: doubleVal_def)
    ultimately show ?thesis unfolding z by (simp add: fl)
  next
    case False
    with m0 have pos: "0 < mantissa x" by simp
    from unit_double[OF u pos] have eneg: "exponent x < 0"
      and mF: "mantissa x < 2 ^ f" by (simp_all add: f_def)
    from floor_doubleVal[OF eneg, of n] have ex: "\<lfloor>doubleVal x * real n\<rfloor> = M div 2 ^ f"
      by (simp add: M_def f_def)
    from pos n have Mpos: "0 < M" by (simp add: M_def)
    have sf: "s \<le> f"
    proof (cases "s = 0")
      case True
      then show ?thesis by simp
    next
      case False
      then have bl: "bitLength M - 1 = 52 + s" by (simp add: s_def)
      from bitLength_lower[OF Mpos] bl have lo: "(2::int) ^ (52 + s) \<le> M" by simp
      from mF n have "mantissa x * int n < 2 ^ f * int n"
        by (simp add: mult_strict_right_mono)
      also from nb have "(2::int) ^ f * int n \<le> 2 ^ f * 2 ^ 53" by (simp add: mult_left_mono)
      finally have "M < 2 ^ (f + 53)" by (simp add: M_def power_add)
      with lo have "(2::int) ^ (52 + s) < 2 ^ (f + 53)" by linarith
      then have "52 + s < f + 53" by (simp add: power_strict_increasing_iff)
      then show ?thesis by simp
    qed
    define t where "t = f - s"
    from sf have fts: "f = s + t" by (simp add: t_def)
    define q where "q = M div 2 ^ s"
    have qt: "M div 2 ^ f = q div 2 ^ t"
      unfolding fts q_def by (simp add: power_add zdiv_zmult2_eq)
    from roundHalfEven_cases[of M s] have Rq: "R = q \<or> R = q + 1" by (simp add: R_def q_def)
    have flt: "mathFloor (timesLength x n) = R div 2 ^ t"
    proof (cases "0 \<le> exponent x + int s")
      case True
      with eneg sf have "t = 0" "nat (exponent x + int s) = 0" by (simp_all add: t_def f_def)
      with True show ?thesis by (simp add: fl)
    next
      case False
      with eneg have "nat (- (exponent x + int s)) = t" by (simp add: t_def f_def)
      with False show ?thesis by (simp add: fl)
    qed
    from Rq show ?thesis
    proof
      assume "R = q"
      with flt ex qt show ?thesis by simp
    next
      assume "R = q + 1"
      with int_div_succ[of "2 ^ t" q] flt ex qt show ?thesis by auto
    qed
  qed
qed


subsection \<open>The number of legal moves\<close>

text \<open>The loop of a ray pushes at most one move for each row of the grid.\<close>

lemma kingRay_length:
  "length (kingRay board start p dr dc r c foundOpponent opponentPos) \<le>
     (if isValidPos r c then (if dr > 0 then nat (BOARD_SIZE - r) else nat (r + 1)) else 0)"
proof (induction board start p dr dc r c foundOpponent opponentPos rule: kingRay.induct)
  case (1 board start p dr dc r c foundOpponent opponentPos)
  show ?case
  proof (cases "isValidPos r c \<and> dr \<noteq> 0")
    case False
    then show ?thesis by (subst kingRay.simps) auto
  next
    case True
    then have v: "isValidPos r c" and dr: "dr \<noteq> 0" by simp_all
    from v have rng: "0 \<le> r" "r < 8" by (simp_all add: isValidPos_def BOARD_SIZE_def)
    have step: "(if isValidPos (r + dr) (c + dc)
                 then (if dr > 0 then nat (BOARD_SIZE - (r + dr)) else nat (r + dr + 1)) else 0) + 1
                \<le> (if dr > 0 then nat (BOARD_SIZE - r) else nat (r + 1))"
      using rng dr by (auto simp: isValidPos_def BOARD_SIZE_def)
    show ?thesis
    proof (cases "boardAt board r c")
      case None
      show ?thesis
      proof (cases foundOpponent)
        case False
        from "1.IH"(1)[OF True None False] step v None False show ?thesis
          by (subst kingRay.simps) (simp add: True)
      next
        case fo: True
        show ?thesis
        proof (cases opponentPos)
          case (Some opp)
          with None fo v rng dr show ?thesis
            by (subst kingRay.simps) (auto simp: BOARD_SIZE_def)
        next
          case on: None
          from "1.IH"(2)[OF True None _ on] fo step v None on show ?thesis
            by (subst kingRay.simps) (simp add: True)
        qed
      qed
    next
      case (Some currentPiece)
      show ?thesis
      proof (cases "player currentPiece = p \<or> foundOpponent")
        case True
        with Some v show ?thesis by (subst kingRay.simps) auto
      next
        case False
        then have a: "player currentPiece \<noteq> p" and b: "\<not> foundOpponent" by simp_all
        from "1.IH"(3)[OF True Some a b] step v Some a b show ?thesis
          by (subst kingRay.simps) (simp add: True)
      qed
    qed
  qed
qed

lemma kingRay_length8:
  "length (kingRay board start p dr dc r c foundOpponent opponentPos) \<le> 8"
proof -
  have "(if isValidPos r c then (if dr > 0 then nat (BOARD_SIZE - r) else nat (r + 1)) else 0) \<le> 8"
    by (auto simp: isValidPos_def BOARD_SIZE_def)
  with kingRay_length[of board start p dr dc r c foundOpponent opponentPos] show ?thesis
    by linarith
qed

lemma length_concat_le:
  assumes "\<And>x. x \<in> set xs \<Longrightarrow> length (f x) \<le> k"
  shows "length (concat (map f xs)) \<le> length xs * k"
  using assms
proof (induction xs)
  case Nil
  then show ?case by simp
next
  case (Cons x xs)
  from Cons.prems have "length (f x) \<le> k" by simp
  moreover from Cons have "length (concat (map f xs)) \<le> length xs * k" by simp
  ultimately show ?case by simp
qed

lemma getPieceMoves_length: "length (getPieceMoves board start piece) \<le> 32"
proof (cases "type piece = Man")
  case True
  have a: "length (concat (map (manSimpleMove board start) (manDirections (player piece)))) \<le>
           length (manDirections (player piece)) * 1"
    by (rule length_concat_le) (simp add: manSimpleMove_def Let_def)
  have b: "length (concat (map (manCapture board start (player piece)) (manDirections (player piece)))) \<le>
           length (manDirections (player piece)) * 1"
    by (rule length_concat_le) (simp add: manCapture_def Let_def split: option.splits)
  have "length (manDirections (player piece)) = 2" by (simp add: manDirections_def)
  with a b True show ?thesis by (simp add: getPieceMoves_def getManMoves_def)
next
  case False
  have "length (getKingMoves board start (player piece)) \<le> length kingDirections * 8"
    unfolding getKingMoves_def by (rule length_concat_le) (rule kingRay_length8)
  with False show ?thesis by (simp add: getPieceMoves_def kingDirections_def)
qed

lemma length_forcedCaptures: "length (forcedCaptures ms) \<le> length ms"
  by (simp add: forcedCaptures_def Let_def)

text \<open>A player has at most 2048 moves, far fewer than \<open>2^53\<close>.\<close>

lemma getValidMoves_length: "length (getValidMoves board p a) \<le> 2048"
proof (cases a)
  case None
  have "length (concat (map (squareMoves board p) allSquares)) \<le> length allSquares * 32"
    by (rule length_concat_le)
       (simp add: squareMoves_def getPieceMoves_length split: option.splits)
  moreover have "length allSquares = 64" by (simp add: allSquares_def boardIndices_eq)
  ultimately have "length (concat (map (squareMoves board p) allSquares)) \<le> 2048" by simp
  with length_forcedCaptures[of "concat (map (squareMoves board p) allSquares)"] None
  show ?thesis by (simp add: getValidMoves_def)
next
  case (Some must)
  have "length (case boardAt board (row must) (col must) of None \<Rightarrow> []
          | Some piece \<Rightarrow> if player piece = p then getPieceMoves board must piece else []) \<le> 32"
    by (simp add: getPieceMoves_length split: option.splits)
  with length_forcedCaptures[of "case boardAt board (row must) (col must) of None \<Rightarrow> []
          | Some piece \<Rightarrow> if player piece = p then getPieceMoves board must piece else []"] Some
  show ?thesis by (simp add: getValidMoves_def)
qed

subsection \<open>Generated moves can be executed\<close>

lemma getValidMoves_piece:
  assumes m: "m \<in> set (getValidMoves b p a)"
  shows "\<exists>start piece. boardAt b (row start) (col start) = Some piece \<and> player piece = p \<and>
          m \<in> set (getPieceMoves b start piece)"
proof (cases a)
  case None
  with m have "m \<in> set (forcedCaptures (concat (map (squareMoves b p) allSquares)))"
    by (simp add: getValidMoves_def)
  then have "m \<in> set (concat (map (squareMoves b p) allSquares))"
    by (rule forcedCaptures_mem)
  then obtain sq where sq: "m \<in> set (squareMoves b p sq)" by auto
  show ?thesis
  proof (cases "boardAt b (fst sq) (snd sq)")
    case None
    with sq show ?thesis by (simp add: squareMoves_def)
  next
    case (Some piece)
    with sq have "player piece = p"
      "m \<in> set (getPieceMoves b \<lparr>row = fst sq, col = snd sq\<rparr> piece)"
      by (simp_all add: squareMoves_def split: if_splits)
    with Some show ?thesis
      by (intro exI[of _ "\<lparr>row = fst sq, col = snd sq\<rparr>"] exI[of _ piece]) simp
  qed
next
  case (Some must)
  with m
  have "m \<in> set (forcedCaptures (case boardAt b (row must) (col must) of None \<Rightarrow> []
                 | Some piece \<Rightarrow> if player piece = p then getPieceMoves b must piece else []))"
    by (simp add: getValidMoves_def)
  then have mm: "m \<in> set (case boardAt b (row must) (col must) of None \<Rightarrow> []
                 | Some piece \<Rightarrow> if player piece = p then getPieceMoves b must piece else [])"
    by (rule forcedCaptures_mem)
  show ?thesis
  proof (cases "boardAt b (row must) (col must)")
    case None
    with mm show ?thesis by simp
  next
    case (Some piece)
    with mm have "player piece = p" "m \<in> set (getPieceMoves b must piece)"
      by (simp_all split: if_splits)
    with Some show ?thesis by blast
  qed
qed

lemma manSimpleMove_valid:
  assumes "m \<in> set (manSimpleMove b start d)"
  shows "moveFrom m = start \<and> isValidPos (row (moveTo m)) (col (moveTo m)) \<and> \<not> isCapture m"
  using assms by (auto simp: manSimpleMove_def Let_def slideMove_def split: if_splits)

lemma manCapture_valid:
  assumes "m \<in> set (manCapture b start p d)"
  shows "moveFrom m = start \<and> isValidPos (row (moveTo m)) (col (moveTo m))"
proof (cases "isValidPos (row start + fst d * 2) (col start + snd d * 2)")
  case False
  with assms show ?thesis unfolding manCapture_def Let_def by simp
next
  case True
  from manCapture_cases[OF assms] True show ?thesis by (auto simp: captureMove_def)
qed

lemma pieceMoves_valid:
  assumes m: "m \<in> set (getPieceMoves b start piece)"
  shows "moveFrom m = start \<and> isValidPos (row (moveTo m)) (col (moveTo m))"
proof (cases "type piece = Man")
  case True
  with m have "(\<exists>d. m \<in> set (manSimpleMove b start d)) \<or>
               (\<exists>d. m \<in> set (manCapture b start (player piece) d))"
    by (auto simp: getPieceMoves_def getManMoves_def)
  then show ?thesis using manSimpleMove_valid manCapture_valid by blast
next
  case False
  with m have k: "m \<in> set (getKingMoves b start (player piece))"
    by (simp add: getPieceMoves_def)
  from getKingMoves_ray[OF k] obtain d k where
    s: "rayStepMove b start (player piece) (fst d) (snd d) (row start + fst d) (col start + snd d) k m"
    by blast
  from rayStepMove_from[OF s] have f: "moveFrom m = start" .
  from s have "isValidPos (row (moveTo m)) (col (moveTo m))"
    unfolding rayStepMove_def
    by (elim conjE disjE exE) (simp_all add: slideMove_def captureMove_def)
  with f show ?thesis by simp
qed

text \<open>
  Every move that \<open>getValidMoves\<close> returns on an 8x8 board starts on a piece of the
  player, ends on a square of the grid and, when it captures, names a captured
  square of the grid.
\<close>

lemma getValidMoves_on_grid:
  assumes wf: "wf_board b" and m: "m \<in> set (getValidMoves b p a)"
  shows "isValidPos (row (moveFrom m)) (col (moveFrom m)) \<and>
         (\<exists>piece. boardAt b (row (moveFrom m)) (col (moveFrom m)) = Some piece \<and>
                   player piece = p) \<and>
         isValidPos (row (moveTo m)) (col (moveTo m)) \<and>
         (isCapture m \<longrightarrow> (\<exists>cp. capturedPiece m = Some cp \<and> isValidPos (row cp) (col cp)))"
proof -
  from getValidMoves_piece[OF m] obtain start piece where
    pc: "boardAt b (row start) (col start) = Some piece" "player piece = p"
    and mm: "m \<in> set (getPieceMoves b start piece)" by blast
  from pieceMoves_valid[OF mm] have f: "moveFrom m = start"
    and t: "isValidPos (row (moveTo m)) (col (moveTo m))" by simp_all
  from pc(1) have "inBoard b (row start) (col start)" by (rule boardAt_Some_inBoard)
  with wf have vf: "isValidPos (row start) (col start)" by (simp add: wf_inBoard_iff)
  have c: "\<exists>cp. capturedPiece m = Some cp \<and> isValidPos (row cp) (col cp)" if "isCapture m"
  proof -
    from getValidMoves_capture[OF m that] obtain cp q where
      cp: "capturedPiece m = Some cp" "boardAt b (row cp) (col cp) = Some q" by blast
    from cp(2) have "inBoard b (row cp) (col cp)" by (rule boardAt_Some_inBoard)
    with wf have "isValidPos (row cp) (col cp)" by (simp add: wf_inBoard_iff)
    with cp(1) show ?thesis by simp
  qed
  from f t vf pc c show ?thesis by auto
qed

lemma executeMove_on_grid:
  assumes wf: "wf_board b"
    and f: "isValidPos (row (moveFrom m)) (col (moveFrom m))"
    and occ: "boardAt b (row (moveFrom m)) (col (moveFrom m)) = Some piece"
    and t: "isValidPos (row (moveTo m)) (col (moveTo m))"
    and c: "isCapture m \<longrightarrow> (\<exists>cp. capturedPiece m = Some cp \<and> isValidPos (row cp) (col cp))"
  shows "\<exists>nb pr. executeMove b m = Inr (nb, pr) \<and> wf_board nb"
proof -
  from f t have ix: "isValidIndex (row (moveFrom m))" "isValidIndex (row (moveTo m))"
    "isValidIndex (col (moveTo m))"
    by (simp_all add: isValidPos_def isValidIndex_def)
  show ?thesis
  proof (cases "isCapture m")
    case False
    with ix occ wf show ?thesis
      by (simp add: executeMove_def Let_def wf_board_boardSet)
  next
    case True
    with c obtain cp where cp: "capturedPiece m = Some cp" "isValidPos (row cp) (col cp)"
      by blast
    then have "isValidIndex (row cp)" "isValidIndex (col cp)"
      by (simp_all add: isValidPos_def isValidIndex_def)
    with True cp ix occ wf show ?thesis
      by (simp add: executeMove_def Let_def wf_board_boardSet)
  qed
qed

lemma executeMove_generated:
  assumes wf: "wf_board b" and m: "m \<in> set (getValidMoves b p a)"
  shows "\<exists>nb pr. executeMove b m = Inr (nb, pr) \<and> wf_board nb"
proof -
  from getValidMoves_on_grid[OF wf m] obtain piece where
    "isValidPos (row (moveFrom m)) (col (moveFrom m))"
    "boardAt b (row (moveFrom m)) (col (moveFrom m)) = Some piece"
    "isValidPos (row (moveTo m)) (col (moveTo m))"
    "isCapture m \<longrightarrow> (\<exists>cp. capturedPiece m = Some cp \<and> isValidPos (row cp) (col cp))"
    by blast
  with wf show ?thesis by (rule executeMove_on_grid)
qed

subsection \<open>The search returns a score\<close>

text \<open>
  On an 8x8 board \<open>executeMove\<close> raises no error on a generated move and returns an
  8x8 board, so \<open>minimax\<close>, its loops and the root loop of \<open>getBotMove\<close> return a
  value.
\<close>

lemma minimax_returns:
  "wf_board board \<Longrightarrow> \<exists>s. minimax board depth alpha beta maximizingPlayer botPlayer activePiece = Inr s"
  "wf_board board \<Longrightarrow> \<exists>s. maxLoop board depth alpha beta botPlayer activePiece i maxEval = Inr s"
  "wf_board board \<Longrightarrow> \<exists>s. minLoop board depth alpha beta botPlayer activePiece i minEval = Inr s"
proof (induction board depth alpha beta maximizingPlayer botPlayer activePiece
         and board depth alpha beta botPlayer activePiece i maxEval
         and board depth alpha beta botPlayer activePiece i minEval
       rule: minimax_maxLoop_minLoop.induct)
  case (1 board depth alpha beta maximizingPlayer botPlayer activePiece)
  show ?case
  proof (cases "depth = 0 \<or> checkWinner board \<noteq> None")
    case True
    then show ?thesis by (subst minimax.simps) auto
  next
    case nt: False
    let ?p = "if maximizingPlayer then botPlayer else opponent botPlayer"
    show ?thesis
    proof (cases "length (getValidMoves board ?p activePiece) = 0")
      case True
      with nt show ?thesis by (subst minimax.simps) (simp add: Let_def)
    next
      case ne: False
      show ?thesis
      proof (cases maximizingPlayer)
        case True
        from "1.IH"(1)[OF nt refl refl ne True "1.prems"] obtain s where
          "maxLoop board depth alpha beta botPlayer activePiece 0 NegInfinity = Inr s" ..
        with nt ne True show ?thesis by (subst minimax.simps) (simp add: Let_def)
      next
        case False
        from "1.IH"(2)[OF nt refl refl ne False "1.prems"] obtain s where
          "minLoop board depth alpha beta botPlayer activePiece 0 Infinity = Inr s" ..
        with nt ne False show ?thesis by (subst minimax.simps) (simp add: Let_def)
      qed
    qed
  qed
next
  case (2 board depth alpha beta botPlayer activePiece i maxEval)
  let ?ms = "getValidMoves board botPlayer activePiece"
  show ?case
  proof (cases "i < length ?ms")
    case False
    then show ?thesis by (subst maxLoop.simps) (simp add: Let_def)
  next
    case lt: True
    let ?m = "?ms ! i"
    from lt have mem: "?m \<in> set ?ms" by simp
    from executeMove_generated[OF "2.prems" mem] obtain nb pr where
      ex: "executeMove board ?m = Inr (nb, pr)" and wfn: "wf_board nb" by blast
    let ?rec = "if continuesChain nb botPlayer ?m pr
                then minimax nb depth alpha beta True botPlayer (Some (moveTo ?m))
                else minimax nb (depth - 1) alpha beta False botPlayer None"
    have "\<exists>ev. ?rec = Inr ev"
    proof (cases "continuesChain nb botPlayer ?m pr")
      case True
      from "2.IH"(1)[OF refl lt refl ex refl True wfn] True show ?thesis by simp
    next
      case False
      from "2.IH"(2)[OF refl lt refl ex refl False wfn] False show ?thesis by simp
    qed
    then obtain ev where ev: "?rec = Inr ev" ..
    show ?thesis
    proof (cases "scoreLe beta (scoreMax alpha ev)")
      case True
      with lt ex ev show ?thesis by (subst maxLoop.simps) (simp add: Let_def)
    next
      case False
      from "2.IH"(3)[OF refl lt refl ex refl ev refl refl False "2.prems"] obtain s where
        "maxLoop board depth (scoreMax alpha ev) beta botPlayer activePiece (i + 1)
           (scoreMax maxEval ev) = Inr s" ..
      with lt ex ev False show ?thesis by (subst maxLoop.simps) (simp add: Let_def)
    qed
  qed
next
  case (3 board depth alpha beta botPlayer activePiece i minEval)
  let ?ms = "getValidMoves board (opponent botPlayer) activePiece"
  show ?case
  proof (cases "i < length ?ms")
    case False
    then show ?thesis by (subst minLoop.simps) (simp add: Let_def)
  next
    case lt: True
    let ?m = "?ms ! i"
    from lt have mem: "?m \<in> set ?ms" by simp
    from executeMove_generated[OF "3.prems" mem] obtain nb pr where
      ex: "executeMove board ?m = Inr (nb, pr)" and wfn: "wf_board nb" by blast
    let ?rec = "if continuesChain nb (opponent botPlayer) ?m pr
                then minimax nb depth alpha beta False botPlayer (Some (moveTo ?m))
                else minimax nb (depth - 1) alpha beta True botPlayer None"
    have "\<exists>ev. ?rec = Inr ev"
    proof (cases "continuesChain nb (opponent botPlayer) ?m pr")
      case True
      from "3.IH"(1)[OF refl lt refl ex refl True wfn] True show ?thesis by simp
    next
      case False
      from "3.IH"(2)[OF refl lt refl ex refl False wfn] False show ?thesis by simp
    qed
    then obtain ev where ev: "?rec = Inr ev" ..
    show ?thesis
    proof (cases "scoreLe (scoreMin beta ev) alpha")
      case True
      with lt ex ev show ?thesis by (subst minLoop.simps) (simp add: Let_def)
    next
      case False
      from "3.IH"(3)[OF refl lt refl ex refl ev refl refl False "3.prems"] obtain s where
        "minLoop board depth alpha (scoreMin beta ev) botPlayer activePiece (i + 1)
           (scoreMin minEval ev) = Inr s" ..
      with lt ex ev False show ?thesis by (subst minLoop.simps) (simp add: Let_def)
    qed
  qed
qed

lemma rootEval_returns:
  assumes wf: "wf_board board" and m: "m \<in> set (getValidMoves board botPlayer activePiece)"
  shows "\<exists>s. rootEval board botPlayer depth m = Inr s"
proof -
  from executeMove_generated[OF wf m] obtain nb pr where
    ex: "executeMove board m = Inr (nb, pr)" and wfn: "wf_board nb" by blast
  show ?thesis
  proof (cases "continuesChain nb botPlayer m pr")
    case True
    from minimax_returns(1)[OF wfn, of depth NegInfinity Infinity True botPlayer "Some (moveTo m)"]
    obtain s where "minimax nb depth NegInfinity Infinity True botPlayer (Some (moveTo m)) = Inr s" ..
    with ex True show ?thesis unfolding rootEval_def by (simp del: minimax.simps)
  next
    case False
    from minimax_returns(1)[OF wfn, of "depth - 1" NegInfinity Infinity False botPlayer None]
    obtain s where "minimax nb (depth - 1) NegInfinity Infinity False botPlayer None = Inr s" ..
    with ex False show ?thesis unfolding rootEval_def by (simp del: minimax.simps)
  qed
qed

lemma rootLoop_returns:
  assumes "\<forall>m \<in> set xs. \<exists>s. rootEval board botPlayer depth m = Inr s"
  shows "\<exists>best. rootLoop board botPlayer depth xs cur s = Inr best"
  using assms
proof (induction xs arbitrary: cur s)
  case Nil
  then show ?case by simp
next
  case (Cons x xs)
  from Cons.prems obtain v where v: "rootEval board botPlayer depth x = Inr v" by auto
  from Cons.prems have rest: "\<forall>m \<in> set xs. \<exists>s. rootEval board botPlayer depth m = Inr s"
    by simp
  show ?case
  proof (cases "scoreLe v s")
    case True
    with v Cons.IH[OF rest, of cur s] show ?thesis by simp
  next
    case False
    with v Cons.IH[OF rest, of x v] show ?thesis by simp
  qed
qed

subsection \<open>What getBotMove returns\<close>




section \<open>Antisymmetry of the evaluation\<close>

lemma evalSquare_neg:
  "ownersRedBlack b \<Longrightarrow> evalSquare b Red a sq = - evalSquare b Black (- a) sq"
  by (cases "boardAt b (fst sq) (snd sq)")
     (auto simp: evalSquare_def Let_def dest: owner_at)

lemma foldl_evalSquare_neg:
  "ownersRedBlack b \<Longrightarrow>
   foldl (evalSquare b Red) a sqs = - foldl (evalSquare b Black) (- a) sqs"
proof (induction sqs arbitrary: a)
  case Nil
  then show ?case by simp
next
  case (Cons sq sqs)
  have "foldl (evalSquare b Red) a (sq # sqs) =
        foldl (evalSquare b Red) (evalSquare b Red a sq) sqs"
    by simp
  also have "\<dots> = - foldl (evalSquare b Black) (- evalSquare b Red a sq) sqs"
    using Cons by simp
  also have "- evalSquare b Red a sq = evalSquare b Black (- a) sq"
    using evalSquare_neg[OF Cons.prems, of a sq] by simp
  finally show ?case by simp
qed

text \<open>
  Claim C5. On a board of the data model (8x8, every piece Red's or Black's) that is
  not terminal (\<open>checkWinner\<close> returns no winner), the evaluation for Red is the
  negation of the evaluation for Black.
\<close>

theorem evaluateBoard_antisymmetric:
  assumes "wf_board b" and "ownersRedBlack b" and "checkWinner b = None"
  shows "evaluateBoard b Red = - evaluateBoard b Black"
  using assms foldl_evalSquare_neg[of b 0 allSquares]
  by (simp add: evaluateBoard_def)

theorem evaluateBoard_antisymmetric_witness:
  "wf_board unevenBoard \<and> ownersRedBlack unevenBoard \<and> checkWinner unevenBoard = None \<and>
   evaluateBoard unevenBoard Red = 300 \<and> evaluateBoard unevenBoard Black = - 300"
proof -
  have wf: "wf_board unevenBoard" by code_simp
  have ow: "ownersRedBlack unevenBoard" by code_simp
  have cw: "checkWinner unevenBoard = None" by code_simp
  have bl: "evaluateBoard unevenBoard Black = - 300" by code_simp
  from evaluateBoard_antisymmetric[OF wf ow cw] bl wf ow cw show ?thesis by simp
qed

end
